theory Spec2Isabelle
  imports Main "HOL-Library.Sublist"
begin

section \<open>JavaScript primitive values\<close>

text \<open>
  The primitive values the services handle. Numbers are modelled as integers; floating
  point is outside the model.
\<close>

datatype prim = Undefined | Null | Bool bool | Num int | Str string

text \<open>\<open>!x\<close> is the negation of \<open>truthy x\<close>.\<close>

fun truthy :: "prim \<Rightarrow> bool" where
  "truthy Undefined = False"
| "truthy Null = False"
| "truthy (Bool b) = b"
| "truthy (Num n) = (n \<noteq> 0)"
| "truthy (Str s) = (s \<noteq> [])"

text \<open>
  Decimal digits of a natural number, and \<open>x + ''\<close> for a primitive \<open>x\<close>. Numbers are
  integers, printed in full (JavaScript turns to the exponent notation from \<open>1e21\<close> on).
\<close>

fun digits :: "nat \<Rightarrow> string" where
  "digits n = (if n < 10 then [''0123456789'' ! n]
               else digits (n div 10) @ [''0123456789'' ! (n mod 10)])"

declare digits.simps [simp del]

fun to_string :: "prim \<Rightarrow> string" where
  "to_string Undefined = ''undefined''"
| "to_string Null = ''null''"
| "to_string (Bool b) = (if b then ''true'' else ''false'')"
| "to_string (Num n) = (if n < 0 then ''-'' @ digits (nat (- n)) else digits (nat n))"
| "to_string (Str s) = s"

section \<open>Objects and the heap\<close>

text \<open>
  Objects and arrays are mutable and can be shared, so they live in a heap: a value is a
  primitive or the address of an object. The heap is the list of the objects allocated so
  far; the address of an object is its index, and allocation appends. An object has its
  own enumerable properties in insertion order; an array is an object whose property names
  are its indices.
\<close>

datatype jsval = Prim prim | Ref nat

record jsobj =
  is_array :: bool
  props :: "(string \<times> jsval) list"

type_synonym heap = "jsobj list"

section \<open>Promises and rejection values\<close>

text \<open>
  The services return \<open>$q\<close> promises. A promise ends resolved with a value, rejected
  with a reason, or is never settled (a callback threw before it reached
  \<open>deferred.resolve\<close> or \<open>deferred.reject\<close>; \<open>$q\<close> swallows the exception).

  A rejection reason is the language key handed to
  \<open>$mmLang.translateErrorAndReject\<close>, a message taken from a server response or from
  a collaborator, a value of a response passed on as it is, or nothing at all
  (\<open>$q.reject()\<close>).
\<close>

datatype error = LangKey string | Message string | Reason jsval | NoReason

datatype 'a promise = Resolved 'a | Rejected error | Pending

section \<open>JavaScript string primitives used by the services\<close>

text \<open>\<open>s.indexOf(pat)\<close>: the first position where \<open>pat\<close> occurs in \<open>s\<close>, or \<open>-1\<close>.\<close>

fun indexOf :: "string \<Rightarrow> string \<Rightarrow> int" where
  "indexOf [] pat = (if pat = [] then 0 else -1)"
| "indexOf (c # cs) pat =
     (if prefix pat (c # cs) then 0
      else (let r = indexOf cs pat in if r < 0 then -1 else r + 1))"

text \<open>\<open>s.replace(pat, rep)\<close> with a string pattern: only the first occurrence is replaced.\<close>

fun replace :: "string \<Rightarrow> string \<Rightarrow> string \<Rightarrow> string" where
  "replace [] pat rep = (if pat = [] then rep else [])"
| "replace (c # cs) pat rep =
     (if prefix pat (c # cs) then rep @ drop (length pat) (c # cs)
      else c # replace cs pat rep)"

section \<open>Site records, the persistent store and the session holder\<close>

record wsfunction =
  f_name :: string

record site_infos =
  i_functions :: "wsfunction list"
  i_username :: string
  i_fullname :: string
  i_sitename :: string
  i_userpictureurl :: string

record site_record =
  s_id :: string
  s_siteurl :: string
  s_token :: string
  s_infos :: site_infos

text \<open>
  The state the sites manager works on. The database \<open>$mmApp.getDB()\<close> and the session
  holder \<open>$mmSite\<close> are not part of the sources.

  Modelled from the spec: the durable storage collaborator, "a keyed store exposing
  get/insert/remove/count/getAll per named collection; two collections are required: site
  records (keyed by site id) and a single-row current-site pointer". Both stores are
  registered with \<open>keyPath: 'id'\<close>, so \<open>insert\<close> replaces the row with the same id.
  \<open>db.get\<close> of a key that is not stored rejects (the callers pass a rejection handler
  for exactly that case).

  Modelled from the spec: \<open>$mmSite\<close> holds the active site and, while a new site is
  validated, "a candidate session (not yet persisted)".
\<close>

record state =
  sites :: "string \<rightharpoonup> site_record"
  current_site :: "int \<rightharpoonup> string"
  currentSite :: "site_record option"
  candidateSite :: "(string \<times> string) option"
  services :: "string \<rightharpoonup> string"
  sessionRestored :: bool
  config :: "string \<rightharpoonup> string"

section \<open>The server, the device and the libraries\<close>

text \<open>
  An \<open>$http\<close> request either fails at transport level (the \<open>.error\<close> callback runs)
  or succeeds with a decoded body; the body can be \<open>null\<close> (\<open>None\<close>).
\<close>

datatype 'a http = HttpError | HttpOk "'a option"

text \<open>
  The answer of \<open>/local/mobile/check.php\<close>. \<open>cr_code\<close> is \<open>None\<close> when the body has
  no \<open>code\<close> field (\<open>typeof(response.code) == "undefined"\<close>), and otherwise holds what
  \<open>parseInt(response.code, 10)\<close> returns; \<open>cr_error\<close> is the truth value of
  \<open>response.error\<close>.
\<close>

datatype parsed_int = NaN | Integer int

record check_response =
  cr_code :: "parsed_int option"
  cr_error :: bool

text \<open>
  The answer of \<open>/login/token.php\<close>: each field is \<open>None\<close> when the body does not
  have it.
\<close>

record token_response =
  tr_token :: "string option"
  tr_error :: "string option"
  tr_errorcode :: "string option"

text \<open>
  What lies outside the app: the hash function of the \<open>md5\<close> library, the answers of
  the Moodle server to the requests the services send, and \<open>$mmUtil.isValidURL\<close>
  (not part of the sources). \<open>token_post e loginurl username password service\<close> is
  the answer to the credentials posted to \<open>loginurl\<close>.

  \<open>logindata_defined\<close> says whether the global scope holds an object called
  \<open>logindata\<close>. \<open>getUserToken\<close> assigns to \<open>logindata.siteurl\<close>, and the sites
  manager declares no variable of that name: its scope holds the injected services,
  \<open>self\<close>, \<open>services\<close>, \<open>db\<close> and \<open>sessionRestored\<close>. No source file
  declares one either.
\<close>

text \<open>
  The device, as the file service sees it: the platform and the two directories of
  \<open>cordova.file\<close>; the network state (\<open>isOnline\<close> is \<open>None\<close> where
  \<open>$cordovaNetwork.isOnline()\<close> throws); whether a download of an URL to an absolute
  path succeeds; and the internal URL of the file entry at an absolute path.
  \<open>fixPluginfileURL\<close> stands for \<open>$mmUtil.fixPluginfileURL\<close>, which is not part of
  the sources.
\<close>

datatype platform = Android | IOS | OtherPlatform

text \<open>
  For the web service client: \<open>isOffline\<close> is what \<open>$cordovaNetwork.isOffline()\<close>
  returns (\<open>None\<close> where it throws); \<open>stack_depth\<close> is the depth of nested calls
  the JavaScript engine allows before it throws a RangeError;
  \<open>ws_post e url h ajaxData\<close> is the JSON body the server sends back for the request
  (\<open>None\<close> where the request fails at transport level); \<open>object_toString\<close> is the
  string an object converts to.

  A JSON value is a primitive, or a node with named children in their order: an object,
  or an array (the flag is true), whose names are then its indices \<open>0\<close>, \<open>1\<close>, ...
\<close>

datatype json = JPrim prim | JNode bool "(string \<times> json) list"

record env =
  createHash :: "string \<Rightarrow> string"
  site_info :: "string \<Rightarrow> string \<Rightarrow> error + site_infos"
  head_request :: "string \<Rightarrow> bool"
  check_post :: "string \<Rightarrow> string \<Rightarrow> check_response http"
  isValidURL :: "string \<Rightarrow> bool"
  token_post :: "string \<Rightarrow> string \<Rightarrow> string \<Rightarrow> string \<Rightarrow> token_response http"
  logindata_defined :: bool
  fixPluginfileURL :: "string \<Rightarrow> string \<Rightarrow> string"
  platform :: platform
  externalApplicationStorageDirectory :: string
  documentsDirectory :: string
  isOnline :: "bool option"
  download_ok :: "string \<Rightarrow> string \<Rightarrow> bool"
  toInternalURL :: "string \<Rightarrow> string"
  isOffline :: "bool option"
  stack_depth :: nat
  ws_post :: "string \<Rightarrow> heap \<Rightarrow> jsval \<Rightarrow> json option"
  object_toString :: "heap \<Rightarrow> nat \<Rightarrow> string"

section \<open>The session holder\<close>

definition setCandidateSite :: "string \<Rightarrow> string \<Rightarrow> state \<Rightarrow> state" where
  "setCandidateSite siteurl token st = st\<lparr>candidateSite := Some (siteurl, token)\<rparr>"

definition deleteCandidateSite :: "state \<Rightarrow> state" where
  "deleteCandidateSite st = st\<lparr>candidateSite := None\<rparr>"

definition setSite :: "string \<Rightarrow> string \<Rightarrow> string \<Rightarrow> site_infos \<Rightarrow> state \<Rightarrow> state" where
  "setSite siteid siteurl token infos st =
     st\<lparr>currentSite := Some \<lparr>s_id = siteid, s_siteurl = siteurl, s_token = token, s_infos = infos\<rparr>\<rparr>"

definition getURL :: "state \<Rightarrow> string option" where
  "getURL st = map_option s_siteurl (currentSite st)"

definition getId :: "state \<Rightarrow> string option" where
  "getId st = map_option s_id (currentSite st)"

text \<open>\<open>$mmSite.fetchSiteInfo()\<close> asks the server of the candidate site, or of the active one.\<close>

definition fetchSiteInfo :: "env \<Rightarrow> state \<Rightarrow> error + site_infos" where
  "fetchSiteInfo e st =
     (case candidateSite st of
        Some (siteurl, token) \<Rightarrow> site_info e siteurl token
      | None \<Rightarrow>
          (case currentSite st of
             Some site \<Rightarrow> site_info e (s_siteurl site) (s_token site)
           | None \<Rightarrow> Inl NoReason))"

section \<open>The sites manager: registering and loading sites\<close>

text \<open>
  \<open>isValidMoodleVersion\<close>: the loop returns at the first function whose name contains
  \<open>component_strings\<close>.
\<close>

fun isValidMoodleVersion :: "wsfunction list \<Rightarrow> bool" where
  "isValidMoodleVersion [] = False"
| "isValidMoodleVersion (f # fs) =
     (if indexOf (f_name f) ''component_strings'' > -1 then True
      else isValidMoodleVersion fs)"

definition addSite :: "string \<Rightarrow> string \<Rightarrow> string \<Rightarrow> site_infos \<Rightarrow> state \<Rightarrow> state" where
  "addSite siteid siteurl token infos st =
     st\<lparr>sites := (sites st)(siteid \<mapsto>
        \<lparr>s_id = siteid, s_siteurl = siteurl, s_token = token, s_infos = infos\<rparr>)\<rparr>"

definition login :: "string \<Rightarrow> state \<Rightarrow> state" where
  "login siteid st = st\<lparr>current_site := (current_site st)(1 \<mapsto> siteid)\<rparr>"

definition newSite :: "env \<Rightarrow> string \<Rightarrow> string \<Rightarrow> state \<Rightarrow> state \<times> unit promise" where
  "newSite e siteurl token st =
     (let st1 = setCandidateSite siteurl token st in
      case fetchSiteInfo e st1 of
        Inr infos \<Rightarrow>
          if isValidMoodleVersion (i_functions infos) then
            (let siteid = createHash e (siteurl @ i_username infos);
                 st2 = addSite siteid siteurl token infos st1;
                 st3 = setSite siteid siteurl token infos st2;
                 st4 = login siteid st3
             in (st4, Resolved ()))
          else (deleteCandidateSite st1, Rejected (LangKey ''mm.login.invalidmoodleversion''))
      | Inl err \<Rightarrow> (deleteCandidateSite st1, Rejected err))"

definition loadSite :: "string \<Rightarrow> state \<Rightarrow> state \<times> unit promise" where
  "loadSite siteid st =
     (case sites st siteid of
        Some site \<Rightarrow>
          (login siteid (setSite siteid (s_siteurl site) (s_token site) (s_infos site) st),
           Resolved ())
      | None \<Rightarrow> (st, Rejected NoReason))"

text \<open>
  Modelled from the spec: \<open>$mmSite.logout()\<close> belongs to the session holder, which is not
  part of the sources. The spec says that after a logout no site is active ("absence means
  logged out") and that the stored site records are kept.
\<close>

definition mmSite_logout :: "state \<Rightarrow> state" where
  "mmSite_logout st = st\<lparr>currentSite := None\<rparr>"

text \<open>\<open>logout\<close> (lines 751-754) also removes row 1 of the current-site store.\<close>

definition logout :: "state \<Rightarrow> state \<times> unit promise" where
  "logout st =
     (let st1 = mmSite_logout st
      in (st1\<lparr>current_site := (current_site st1)(1 := None)\<rparr>, Resolved ()))"

definition getSiteURL :: "string option \<Rightarrow> state \<Rightarrow> string option promise" where
  "getSiteURL siteid st =
     (case siteid of
        None \<Rightarrow> Resolved (getURL st)
      | Some i \<Rightarrow>
          (case sites st i of
             Some site \<Rightarrow> Resolved (Some (s_siteurl site))
           | None \<Rightarrow> Resolved None))"

section \<open>Example data\<close>

text \<open>Concrete servers and states on which the theorems below are exercised.\<close>

definition empty_state :: state where
  "empty_state =
     \<lparr>sites = Map.empty, current_site = Map.empty, currentSite = None, candidateSite = None,
      services = Map.empty, sessionRestored = False, config = Map.empty\<rparr>"

definition infos_new :: site_infos where
  "infos_new =
     \<lparr>i_functions = [\<lparr>f_name = ''core_webservice_get_site_info''\<rparr>,
                     \<lparr>f_name = ''core_get_component_strings''\<rparr>],
      i_username = ''student'', i_fullname = ''A Student'', i_sitename = ''School'',
      i_userpictureurl = []\<rparr>"

definition infos_old :: site_infos where
  "infos_old =
     \<lparr>i_functions = [\<lparr>f_name = ''core_webservice_get_site_info''\<rparr>],
      i_username = ''student'', i_fullname = ''A Student'', i_sitename = ''School'',
      i_userpictureurl = []\<rparr>"

text \<open>A server that answers nothing; the hash of the examples puts \<open>#\<close> in front.\<close>

definition env_down :: env where
  "env_down =
     \<lparr>createHash = (\<lambda>s. ''#'' @ s), site_info = (\<lambda>u t. Inl NoReason),
      head_request = (\<lambda>u. False), check_post = (\<lambda>u s. HttpError),
      isValidURL = (\<lambda>u. True), token_post = (\<lambda>l u p s. HttpError),
      logindata_defined = False,
      fixPluginfileURL = (\<lambda>fileurl token. fileurl @ ''?token='' @ token),
      platform = Android, externalApplicationStorageDirectory = ''file:///sdcard/app/'',
      documentsDirectory = ''file:///documents/'', isOnline = Some False,
      download_ok = (\<lambda>url path. False), toInternalURL = (\<lambda>path. ''cdvfile://'' @ path),
      isOffline = Some False, stack_depth = 100, ws_post = (\<lambda>url h ajaxData. None),
      object_toString = (\<lambda>h a. ''[object Object]'')\<rparr>"

definition env_new :: env where
  "env_new = env_down\<lparr>site_info := (\<lambda>u t. Inr infos_new)\<rparr>"

definition env_old :: env where
  "env_old = env_down\<lparr>site_info := (\<lambda>u t. Inr infos_old)\<rparr>"

section \<open>The browser SSO callback\<close>

text \<open>
  \<open>s.split(sep)\<close> for a separator that is not empty: the pieces between the occurrences
  of \<open>sep\<close>, read from the left. The result always has at least one piece.
\<close>

fun split_from :: "string \<Rightarrow> string \<Rightarrow> string \<Rightarrow> string list" where
  "split_from sep piece [] = [piece]"
| "split_from sep piece (c # cs) =
     (if sep \<noteq> [] \<and> prefix sep (c # cs)
      then piece # split_from sep [] (drop (length sep) (c # cs))
      else split_from sep (piece @ [c]) cs)"

definition js_split :: "string \<Rightarrow> string \<Rightarrow> string list" where
  "js_split s sep = split_from sep [] s"

text \<open>\<open>xs[i]\<close> on a JavaScript array: \<open>undefined\<close> (\<open>None\<close>) outside the array.\<close>

definition at_index :: "'a list \<Rightarrow> nat \<Rightarrow> 'a option" where
  "at_index xs i = (if i < length xs then Some (xs ! i) else None)"










section \<open>Checking a site\<close>

text \<open>
  The regular expression \<open>/^http(s)?\:\/\//i\<close> of \<open>checkSite\<close>: \<open>scheme_length s\<close> is
  the length of its match at the start of \<open>s\<close>, if there is one. The \<open>i\<close> flag lets
  each letter of the pattern match its capital as well.
\<close>

definition capital :: "char \<Rightarrow> char" where
  "capital c =
     (if c = CHR ''h'' then CHR ''H'' else if c = CHR ''t'' then CHR ''T''
      else if c = CHR ''p'' then CHR ''P'' else if c = CHR ''s'' then CHR ''S'' else c)"

fun starts_with_ci :: "string \<Rightarrow> string \<Rightarrow> bool" where
  "starts_with_ci s [] = True"
| "starts_with_ci [] (p # ps) = False"
| "starts_with_ci (c # cs) (p # ps) = ((c = p \<or> c = capital p) \<and> starts_with_ci cs ps)"

definition scheme_length :: "string \<Rightarrow> nat option" where
  "scheme_length s =
     (if starts_with_ci s ''https://'' then Some 8
      else if starts_with_ci s ''http://'' then Some 7
      else None)"

text \<open>\<open>siteurl.replace(/^http(s)?\:\/\//i, protocol)\<close>, for a protocol without \<open>$\<close>.\<close>

definition replace_scheme :: "string \<Rightarrow> string \<Rightarrow> string" where
  "replace_scheme siteurl protocol =
     (case scheme_length siteurl of
        None \<Rightarrow> siteurl
      | Some n \<Rightarrow> protocol @ drop n siteurl)"

text \<open>
  Modelled from the spec: \<open>$mmUtil.formatURL\<close> is not part of the sources. The spec says
  that \<open>checkSite\<close> "normalizes URL (adds scheme if absent)" and that a URL with no scheme
  comes out with \<open>https://\<close> in front; the caller's comment says "formatURL adds the
  protocol if is missing". Nothing else it may do to the URL is modelled.
\<close>

definition formatURL :: "string \<Rightarrow> string" where
  "formatURL url = (if scheme_length url = None then ''https://'' @ url else url)"

record check_result =
  r_siteurl :: string
  r_code :: parsed_int

definition checkMobileLocalPlugin :: "env \<Rightarrow> string \<Rightarrow> state \<Rightarrow> state \<times> parsed_int promise" where
  "checkMobileLocalPlugin e siteurl st =
     (case config st ''wsextservice'' of
        None \<Rightarrow> (st, Resolved (Integer 0))
      | Some service \<Rightarrow>
          (case check_post e (siteurl @ ''/local/mobile/check.php'') service of
             HttpError \<Rightarrow> (st, Resolved (Integer 0))
           | HttpOk None \<Rightarrow> (st, Pending)
           | HttpOk (Some response) \<Rightarrow>
               (case cr_code response of
                  None \<Rightarrow> (st, Rejected (LangKey ''mm.core.unexpectederror''))
                | Some code \<Rightarrow>
                    if cr_error response then
                      (if code = Integer 1 then (st, Rejected (LangKey ''mm.login.siteinmaintenance''))
                       else if code = Integer 2
                         then (st, Rejected (LangKey ''mm.login.webservicesnotenabled''))
                       else if code = Integer 3 then (st, Resolved (Integer 0))
                       else if code = Integer 4
                         then (st, Rejected (LangKey ''mm.login.mobileservicesnotenabled''))
                       else (st, Rejected (LangKey ''mm.core.unexpectederror'')))
                    else (st\<lparr>services := (services st)(siteurl \<mapsto> service)\<rparr>, Resolved code))))"

text \<open>\<open>siteExists\<close>: a HEAD request to the token endpoint of the site.\<close>

definition siteExists :: "env \<Rightarrow> string \<Rightarrow> bool" where
  "siteExists e siteurl = head_request e (siteurl @ ''/login/token.php'')"

text \<open>
  \<open>checkSite\<close>. Beside the new state and the promise, the model returns the list of site
  URLs handed to \<open>siteExists\<close>, in the order of the requests.
\<close>

function checkSite ::
  "env \<Rightarrow> string \<Rightarrow> string option \<Rightarrow> state \<Rightarrow> state \<times> string list \<times> check_result promise"
where
  "checkSite e siteurl protocol st =
     (let siteurl1 = formatURL siteurl in
      if indexOf siteurl1 ''://localhost'' = -1 \<and> \<not> isValidURL e siteurl1
      then (st, [], Rejected (LangKey ''mm.login.invalidsite''))
      else
        (let protocol1 = (case protocol of None \<Rightarrow> ''https://''
                          | Some p \<Rightarrow> if p = [] then ''https://'' else p);
             siteurl2 = replace_scheme siteurl1 protocol1
         in if siteExists e siteurl2
            then (case checkMobileLocalPlugin e siteurl2 st of
                    (st', r) \<Rightarrow>
                      (st', [siteurl2],
                       map_promise (\<lambda>code. \<lparr>r_siteurl = siteurl2, r_code = code\<rparr>) r))
            else if indexOf siteurl2 ''https://'' = 0
            then (case checkSite e siteurl2 (Some ''http://'') st of
                    (st', probes, r) \<Rightarrow> (st', siteurl2 # probes, r))
            else (st, [siteurl2], Rejected (LangKey ''mm.core.cannotconnect''))))"
  by pat_completeness auto

lemma indexOf_0_iff: "indexOf s pat = 0 \<longleftrightarrow> prefix pat s"
  by (cases s) (auto simp: Let_def)

lemma not_https_after_http: "indexOf (replace_scheme s ''http://'') ''https://'' \<noteq> 0"
  by (simp add: indexOf_0_iff replace_scheme_def split: option.splits)
    (auto simp: scheme_length_def prefix_def split: if_splits)

termination checkSite
proof (relation "measure (\<lambda>(e, siteurl, protocol, st). if protocol = Some ''http://'' then 0 else 1)")
  show "wf (measure (\<lambda>(e, siteurl, protocol, st). if protocol = Some ''http://'' then 0 else 1))"
    by simp
qed (auto simp: not_https_after_http split: option.splits if_splits)

declare checkSite.simps [simp del]

text \<open>Example servers and a state that names the extended service.\<close>

definition env_http_only :: env where
  "env_http_only = env_down\<lparr>head_request := (\<lambda>u. u = ''http://moodle.example.org/login/token.php'')\<rparr>"

definition env_no_code :: env where
  "env_no_code =
     env_down\<lparr>check_post := (\<lambda>u s. HttpOk (Some \<lparr>cr_code = None, cr_error = False\<rparr>))\<rparr>"

definition ext_state :: state where
  "ext_state = empty_state\<lparr>config := [''wsextservice'' \<mapsto> ''local_mobile_app'']\<rparr>"

section \<open>Getting a user token\<close>

text \<open>
  \<open>determineService\<close>: the cached service of the http URL, then of the https URL, then
  the configured default. \<open>if (services[siteurl])\<close> holds for a cached name that is not
  the empty string.
\<close>

definition determineService :: "string \<Rightarrow> state \<Rightarrow> string promise" where
  "determineService siteurl st =
     (let siteurl1 = replace siteurl ''https://'' ''http://'' in
      case (case services st siteurl1 of Some s \<Rightarrow> if s \<noteq> [] then Some s else None
            | None \<Rightarrow> None) of
        Some s \<Rightarrow> Resolved s
      | None \<Rightarrow>
          (let siteurl2 = replace siteurl1 ''http://'' ''https://'' in
           case (case services st siteurl2 of Some s \<Rightarrow> if s \<noteq> [] then Some s else None
                 | None \<Rightarrow> None) of
             Some s \<Rightarrow> Resolved s
           | None \<Rightarrow>
               (case config st ''wsservice'' of
                  Some s \<Rightarrow> Resolved s
                | None \<Rightarrow> Rejected NoReason)))"

text \<open>
  \<open>getUserToken\<close>. Beside the promise, the model returns the list of login URLs the
  credentials were posted to, in the order of the requests.

  In the retry branch the source first rewrites \<open>siteurl\<close>, then executes
  \<open>logindata.siteurl = siteurl\<close>, then calls itself. Where \<open>logindata\<close> is not defined
  the assignment throws a ReferenceError inside the \<open>.success\<close> callback: the recursive
  call is not reached and \<open>deferred\<close> is never settled.
\<close>

function getUserToken ::
  "env \<Rightarrow> string \<Rightarrow> string \<Rightarrow> string \<Rightarrow> bool \<Rightarrow> state \<Rightarrow> string list \<times> string promise"
where
  "getUserToken e siteurl username password retry st =
     (case determineService siteurl st of
        Rejected err \<Rightarrow> ([], Rejected err)
      | Pending \<Rightarrow> ([], Pending)
      | Resolved service \<Rightarrow>
          (let loginurl = siteurl @ ''/login/token.php'' in
           case token_post e loginurl username password service of
             HttpError \<Rightarrow> ([loginurl], Rejected (LangKey ''mm.core.cannotconnect''))
           | HttpOk None \<Rightarrow> ([loginurl], Pending)
           | HttpOk (Some response) \<Rightarrow>
               (case tr_token response of
                  Some t \<Rightarrow> ([loginurl], Resolved t)
                | None \<Rightarrow>
                    (case tr_error response of
                       Some err \<Rightarrow>
                         if \<not> retry \<and> tr_errorcode response = Some ''requirecorrectaccess''
                         then
                           (let siteurl1 = replace siteurl ''https://'' ''https://www.'';
                                siteurl2 = replace siteurl1 ''http://'' ''http://www.''
                            in if logindata_defined e
                               then (case getUserToken e siteurl2 username password True st of
                                       (posts, r) \<Rightarrow> (loginurl # posts, r))
                               else ([loginurl], Pending))
                         else ([loginurl], Rejected (Message err))
                     | None \<Rightarrow> ([loginurl], Rejected (LangKey ''mm.login.invalidaccount''))))))"
  by pat_completeness auto
termination
  by (relation "measure (\<lambda>(e, siteurl, username, password, retry, st). if retry then 0 else 1)")
    auto

declare getUserToken.simps [simp del]

text \<open>
  A server that answers every login with the error code \<open>requirecorrectaccess\<close>, and a
  state with the default service configured.
\<close>

definition env_canonical :: env where
  "env_canonical =
     env_down\<lparr>token_post := (\<lambda>l u p s. HttpOk (Some
        \<lparr>tr_token = None, tr_error = Some ''Use the canonical address'',
         tr_errorcode = Some ''requirecorrectaccess''\<rparr>))\<rparr>"

definition service_state :: state where
  "service_state = empty_state\<lparr>config := [''wsservice'' \<mapsto> ''moodle_mobile_app'']\<rparr>"

section \<open>The file service and the cached files of a site\<close>

text \<open>
  The state of \<open>$mmFS\<close> (\<open>initialized\<close>, \<open>basePath\<close>) and the files on the device.

  Modelled from the spec: the filesystem collaborator (\<open>$cordovaFile\<close>,
  \<open>$cordovaFileTransfer\<close>) "exposes path resolution, existence check, read/write/remove
  of files and directories, and a background download operation keyed by (remote URL, local
  path)". The files are kept by absolute path; a successful download creates the file.
\<close>

record fs_state =
  initialized :: bool
  basePath :: string
  files :: "string set"

text \<open>\<open>$mmFS.init\<close>: resolves (\<open>True\<close>) or rejects (\<open>False\<close>).\<close>

definition init :: "env \<Rightarrow> fs_state \<Rightarrow> fs_state \<times> bool" where
  "init e fs =
     (if initialized fs then (fs, True)
      else (case platform e of
              Android \<Rightarrow>
                (fs\<lparr>basePath := externalApplicationStorageDirectory e, initialized := True\<rparr>, True)
            | IOS \<Rightarrow> (fs\<lparr>basePath := documentsDirectory e, initialized := True\<rparr>, True)
            | OtherPlatform \<Rightarrow> (fs, False)))"

text \<open>\<open>$mmFS.getBasePath\<close>: the base path, with a slash at its end.\<close>

definition getBasePath :: "env \<Rightarrow> fs_state \<Rightarrow> fs_state \<times> string option" where
  "getBasePath e fs =
     (case init e fs of
        (fs', False) \<Rightarrow> (fs', None)
      | (fs', True) \<Rightarrow>
          (fs', Some (if basePath fs' \<noteq> [] \<and> last (basePath fs') = CHR ''/''
                      then basePath fs' else basePath fs' @ ''/'')))"

text \<open>
  \<open>$cordovaFile.checkFile(basePath, path)\<close>: the entry of the file, given here by its
  absolute path, or a rejection.
\<close>

definition checkFile :: "fs_state \<Rightarrow> string \<Rightarrow> string \<Rightarrow> string option" where
  "checkFile fs base path =
     (let absolutePath =
            (if base \<noteq> [] \<and> last base = CHR ''/'' then base else base @ ''/'') @ path
      in if absolutePath \<in> files fs then Some absolutePath else None)"

text \<open>\<open>$mmFS.getFile\<close>.\<close>

definition getFile :: "env \<Rightarrow> string \<Rightarrow> fs_state \<Rightarrow> fs_state \<times> string option" where
  "getFile e path fs =
     (case init e fs of
        (fs', False) \<Rightarrow> (fs', None)
      | (fs', True) \<Rightarrow> (fs', checkFile fs' (basePath fs') path))"

text \<open>\<open>$mmWS.downloadFile\<close>: the entry of the downloaded file, or a rejection.\<close>

definition downloadFile :: "env \<Rightarrow> string \<Rightarrow> string \<Rightarrow> fs_state \<Rightarrow> fs_state \<times> string option" where
  "downloadFile e url path fs =
     (case getBasePath e fs of
        (fs', None) \<Rightarrow> (fs', None)
      | (fs', Some base) \<Rightarrow>
          (let absolutePath = base @ path
           in if download_ok e url absolutePath
              then (fs'\<lparr>files := insert absolutePath (files fs')\<rparr>, Some absolutePath)
              else (fs', None)))"

text \<open>
  The extension and the relative path that \<open>getMoodleFilePath\<close> computes for a file
  (lines 689-699).
\<close>

definition extension_of :: "string \<Rightarrow> string" where
  "extension_of fileurl =
     (let extension = ''.'' @ last (js_split fileurl ''.'')
      in if indexOf extension ''.php'' = 0 then [] else extension)"

definition path_file :: "env \<Rightarrow> string \<Rightarrow> prim \<Rightarrow> string \<Rightarrow> string" where
  "path_file e fileurl courseId siteId =
     (let filename = createHash e fileurl @ extension_of fileurl
      in siteId @ ''/'' @ to_string courseId @ ''/'' @ filename)"

text \<open>
  \<open>getMoodleFilePath\<close>. \<open>fileurl\<close> and \<open>siteId\<close> are \<open>None\<close> when
  \<open>undefined\<close>. Beside the promise, the model returns the new state of the file service
  and the list of downloads attempted (URL and relative path).
\<close>

definition getMoodleFilePath ::
  "env \<Rightarrow> string option \<Rightarrow> prim \<Rightarrow> string option \<Rightarrow> state \<Rightarrow> fs_state
     \<Rightarrow> fs_state \<times> (string \<times> string) list \<times> string promise"
where
  "getMoodleFilePath e fileurl courseId siteId st fs =
     (case (case fileurl of Some f \<Rightarrow> if f \<noteq> [] then Some f else None | None \<Rightarrow> None) of
        None \<Rightarrow> (fs, [], Rejected NoReason)
      | Some fileurl' \<Rightarrow>
          (let courseId' = (if \<not> truthy courseId then Num 1 else courseId);
               siteId' = (case siteId of
                            Some i \<Rightarrow> if i \<noteq> [] then Some i else getId st
                          | None \<Rightarrow> getId st)
           in case siteId' of
                None \<Rightarrow> (fs, [], Rejected NoReason)
              | Some siteId'' \<Rightarrow>
                  (case sites st siteId'' of
                     None \<Rightarrow> (fs, [], Rejected NoReason)
                   | Some site \<Rightarrow>
                       (let downloadURL = fixPluginfileURL e fileurl' (s_token site);
                            file = path_file e fileurl' courseId' siteId''
                        in case getFile e file fs of
                             (fs', Some fileEntry) \<Rightarrow>
                               (fs', [], Resolved (toInternalURL e fileEntry))
                           | (fs', None) \<Rightarrow>
                               (case isOnline e of
                                  Some True \<Rightarrow>
                                    (case downloadFile e downloadURL file fs' of
                                       (fs'', Some fileEntry) \<Rightarrow>
                                         (fs'', [(downloadURL, file)],
                                          Resolved (toInternalURL e fileEntry))
                                     | (fs'', None) \<Rightarrow>
                                         (fs'', [(downloadURL, file)], Resolved downloadURL))
                                | Some False \<Rightarrow> (fs', [], Resolved downloadURL)
                                | None \<Rightarrow> (fs', [], Resolved downloadURL))))))"

text \<open>A device on which nothing is cached yet, and a state with one stored site.\<close>

definition fresh_fs :: fs_state where
  "fresh_fs = \<lparr>initialized = False, basePath = [], files = {}\<rparr>"

definition one_site_state :: state where
  "one_site_state = empty_state\<lparr>sites := [''site1'' \<mapsto>
     \<lparr>s_id = ''site1'', s_siteurl = ''https://school.example'', s_token = ''t0'',
      s_infos = infos_new\<rparr>]\<rparr>"

section \<open>The web service client\<close>

text \<open>Reading and writing properties; \<open>angular.isObject\<close> and \<open>angular.isArray\<close>.\<close>

definition truthy_val :: "jsval \<Rightarrow> bool" where
  "truthy_val v = (case v of Prim p \<Rightarrow> truthy p | Ref a \<Rightarrow> True)"

definition isObject :: "jsval \<Rightarrow> bool" where
  "isObject v = (case v of Prim p \<Rightarrow> False | Ref a \<Rightarrow> True)"

definition isArray :: "heap \<Rightarrow> jsval \<Rightarrow> bool" where
  "isArray h v =
     (case v of
        Prim p \<Rightarrow> False
      | Ref a \<Rightarrow> (case at_index h a of Some obj \<Rightarrow> is_array obj | None \<Rightarrow> False))"

text \<open>The characters of a string primitive, as the properties \<open>0\<close>, \<open>1\<close>, ... it has.\<close>

definition string_props :: "string \<Rightarrow> (string \<times> jsval) list" where
  "string_props s = map (\<lambda>i. (digits i, Prim (Str [s ! i]))) [0..<length s]"

text \<open>
  \<open>v[k]\<close>: \<open>undefined\<close> where \<open>v\<close> has no such property. Built-in properties
  (\<open>length\<close> and the like) are not modelled; the services read \<open>data.length\<close> for
  a log message only.
\<close>

definition get_prop :: "heap \<Rightarrow> jsval \<Rightarrow> string \<Rightarrow> jsval" where
  "get_prop h v k =
     (case v of
        Ref a \<Rightarrow>
          (case at_index h a of
             Some obj \<Rightarrow> (case map_of (props obj) k of Some x \<Rightarrow> x | None \<Rightarrow> Prim Undefined)
           | None \<Rightarrow> Prim Undefined)
      | Prim (Str s) \<Rightarrow>
          (case map_of (string_props s) k of Some x \<Rightarrow> x | None \<Rightarrow> Prim Undefined)
      | Prim p \<Rightarrow> Prim Undefined)"

text \<open>The names a \<open>for (var el in v)\<close> loop runs through.\<close>

definition keys :: "heap \<Rightarrow> jsval \<Rightarrow> string list" where
  "keys h v =
     (case v of
        Ref a \<Rightarrow> (case at_index h a of Some obj \<Rightarrow> map fst (props obj) | None \<Rightarrow> [])
      | Prim (Str s) \<Rightarrow> map fst (string_props s)
      | Prim p \<Rightarrow> [])"

fun put :: "string \<Rightarrow> 'v \<Rightarrow> (string \<times> 'v) list \<Rightarrow> (string \<times> 'v) list" where
  "put k v [] = [(k, v)]"
| "put k v ((k', v') # ps) = (if k = k' then (k, v) # ps else (k', v') # put k v ps)"

text \<open>\<open>obj[k] = v\<close> for the object at address \<open>a\<close>.\<close>

definition set_prop :: "heap \<Rightarrow> nat \<Rightarrow> string \<Rightarrow> jsval \<Rightarrow> heap" where
  "set_prop h a k v =
     (if a < length h then h[a := (h ! a)\<lparr>props := put k v (props (h ! a))\<rparr>] else h)"

text \<open>
  \<open>convertValuesToString\<close>. The first argument is the depth of nested calls still
  available; the result is \<open>None\<close> where the recursion runs out of it (a RangeError),
  and otherwise the address of the new object \<open>result\<close>. \<open>convert_loop\<close> is the
  \<open>for ... in\<close> loop over the names still to visit.
\<close>

fun convertValuesToString :: "nat \<Rightarrow> heap \<Rightarrow> jsval \<Rightarrow> heap \<times> jsval option"
  and convert_loop :: "nat \<Rightarrow> heap \<Rightarrow> jsval \<Rightarrow> nat \<Rightarrow> string list \<Rightarrow> heap \<times> jsval option"
where
  "convertValuesToString 0 h data = (h, None)"
| "convertValuesToString (Suc depth) h data =
     (let result = length h;
          h1 = h @ [\<lparr>is_array = \<not> (\<not> isArray h data \<and> isObject data), props = []\<rparr>]
      in convert_loop depth h1 data result (keys h1 data))"
| "convert_loop depth h data result [] = (h, Some (Ref result))"
| "convert_loop depth h data result (el # els) =
     (case get_prop h data el of
        Ref a \<Rightarrow>
          (case convertValuesToString depth h (Ref a) of
             (h', None) \<Rightarrow> (h', None)
           | (h', Some converted) \<Rightarrow>
               convert_loop depth (set_prop h' result el converted) data result els)
      | Prim p \<Rightarrow>
          convert_loop depth (set_prop h result el (Prim (Str (to_string p)))) data result els)"

text \<open>
  Modelled from the spec: \<open>$http\<close> decodes the JSON body of the response into new
  objects ("JSON response").
\<close>

fun decode :: "heap \<Rightarrow> json \<Rightarrow> heap \<times> jsval"
  and decode_fields :: "heap \<Rightarrow> nat \<Rightarrow> (string \<times> json) list \<Rightarrow> heap"
where
  "decode h (JPrim p) = (h, Prim p)"
| "decode h (JNode arr fs) =
     (decode_fields (h @ [\<lparr>is_array = arr, props = []\<rparr>]) (length h) fs, Ref (length h))"
| "decode_fields h a [] = h"
| "decode_fields h a ((k, x) # fs) =
     (case decode h x of (h', v) \<Rightarrow> decode_fields (set_prop h' a k v) a fs)"

text \<open>
  Modelled from the spec: \<open>angular.copy\<close> (the AngularJS library is not part of the
  sources) makes "a defensive copy of the decoded payload": a primitive is returned as it
  is, an object or array is copied into a new one, property by property, each value copied
  in turn. As for \<open>convertValuesToString\<close>, the first argument bounds the depth.
\<close>

fun copy :: "nat \<Rightarrow> heap \<Rightarrow> jsval \<Rightarrow> heap \<times> jsval option"
  and copy_loop :: "nat \<Rightarrow> heap \<Rightarrow> jsval \<Rightarrow> nat \<Rightarrow> string list \<Rightarrow> heap \<times> jsval option"
where
  "copy 0 h source = (h, None)"
| "copy (Suc depth) h (Prim p) = (h, Some (Prim p))"
| "copy (Suc depth) h (Ref a) =
     (let destination = length h;
          h1 = h @ [\<lparr>is_array = isArray h (Ref a), props = []\<rparr>]
      in copy_loop depth h1 (Ref a) destination (keys h1 (Ref a)))"
| "copy_loop depth h source destination [] = (h, Some (Ref destination))"
| "copy_loop depth h source destination (key # ks) =
     (case copy depth h (get_prop h source key) of
        (h', None) \<Rightarrow> (h', None)
      | (h', Some copied) \<Rightarrow>
          copy_loop depth (set_prop h' destination key copied) source destination ks)"

text \<open>\<open>x + ''\<close> and \<open>x == 'literal'\<close> for any value \<open>x\<close>.\<close>

definition string_of :: "env \<Rightarrow> heap \<Rightarrow> jsval \<Rightarrow> string" where
  "string_of e h v = (case v of Prim p \<Rightarrow> to_string p | Ref a \<Rightarrow> object_toString e h a)"

definition loose_eq :: "env \<Rightarrow> heap \<Rightarrow> jsval \<Rightarrow> string \<Rightarrow> bool" where
  "loose_eq e h v s =
     (case v of
        Prim (Str t) \<Rightarrow> t = s
      | Prim p \<Rightarrow> False
      | Ref a \<Rightarrow> object_toString e h a = s)"

text \<open>
  The \<open>preSets\<close> of a call: \<open>siteurl\<close> and \<open>wstoken\<close> are \<open>None\<close> where
  \<open>undefined\<close>; \<open>responseExpected\<close> is the truth value of the field.
\<close>

record preSets =
  ps_siteurl :: "string option"
  ps_wstoken :: "string option"
  ps_responseExpected :: bool

text \<open>
  The success callback of \<open>$http.post\<close> in \<open>call\<close> (lines 70-110). Its argument
  \<open>data\<close> is the response object of \<open>$http\<close>, whose property \<open>data\<close> is the decoded
  body. The promise stays unsettled where \<open>angular.copy\<close> runs out of stack.
\<close>

definition call_success :: "env \<Rightarrow> preSets \<Rightarrow> heap \<Rightarrow> jsval \<Rightarrow> heap \<times> jsval promise" where
  "call_success e ps h data =
     (case (if \<not> truthy_val data \<and> \<not> truthy_val (get_prop h data ''data'')
               \<and> \<not> ps_responseExpected ps
            then (h @ [\<lparr>is_array = False, props = []\<rparr>], Ref (length h))
            else (h, get_prop h data ''data'')) of
        (h1, data1) \<Rightarrow>
          if \<not> truthy_val data1 then (h1, Rejected (LangKey ''mm.core.cannotconnect''))
          else if get_prop h1 data1 ''exception'' \<noteq> Prim Undefined
          then (if loose_eq e h1 (get_prop h1 data1 ''errorcode'') ''invalidtoken''
                   \<or> loose_eq e h1 (get_prop h1 data1 ''errorcode'') ''accessexception''
                then (h1, Rejected (LangKey ''mm.core.lostconnection''))
                else (h1, Rejected (Reason (get_prop h1 data1 ''message''))))
          else if get_prop h1 data1 ''debuginfo'' \<noteq> Prim Undefined
          then (h1, Rejected (Message
                  (''Error. '' @ string_of e h1 (get_prop h1 data1 ''message''))))
          else (case copy (stack_depth e) h1 data1 of
                  (h2, None) \<Rightarrow> (h2, Pending)
                | (h2, Some copied) \<Rightarrow> (h2, Resolved copied)))"

text \<open>
  The check of \<open>preSets\<close> at the start of \<open>call\<close> (lines 51-52): \<open>preSets\<close> is
  there and has a \<open>wstoken\<close> and a \<open>siteurl\<close>.
\<close>

definition checked_preSets :: "preSets option \<Rightarrow> (preSets \<times> string \<times> string) option" where
  "checked_preSets preSets =
     (case preSets of
        None \<Rightarrow> None
      | Some ps \<Rightarrow>
          (case ps_wstoken ps of
             None \<Rightarrow> None
           | Some wstoken \<Rightarrow>
               (case ps_siteurl ps of
                  None \<Rightarrow> None
                | Some siteurl \<Rightarrow> Some (ps, wstoken, siteurl))))"

text \<open>
  \<open>call\<close>. It returns a promise, or throws where \<open>convertValuesToString\<close> runs out of
  stack. Beside that, the model returns the new heap, the request sent (URL and
  \<open>ajaxData\<close>), and the decoded body of the response.
\<close>

datatype 'a returned = Returns 'a | Throws

record call_result =
  ajax :: "(string \<times> jsval) option"
  body :: "jsval option"
  outcome :: "jsval promise returned"

definition call :: "env \<Rightarrow> string \<Rightarrow> jsval \<Rightarrow> preSets option \<Rightarrow> heap \<Rightarrow> heap \<times> call_result" where
  "call e method data preSets h =
     (case convertValuesToString (stack_depth e) h data of
        (h1, None) \<Rightarrow> (h1, \<lparr>ajax = None, body = None, outcome = Throws\<rparr>)
      | (h1, Some data1) \<Rightarrow>
          (case checked_preSets preSets of
             None \<Rightarrow>
               (h1, \<lparr>ajax = None, body = None,
                     outcome = Returns (Rejected (LangKey ''mm.core.unexpectederror''))\<rparr>)
           | Some (ps, wstoken, siteurl0) \<Rightarrow>
               if isOffline e = Some True
               then (h1, \<lparr>ajax = None, body = None,
                          outcome = Returns (Rejected (LangKey ''mm.core.networkerrormsg''))\<rparr>)
               else
                 (let h2 = (case data1 of
                              Ref a \<Rightarrow> set_prop (set_prop h1 a ''wsfunction'' (Prim (Str method)))
                                         a ''wstoken'' (Prim (Str wstoken))
                            | Prim p \<Rightarrow> h1);
                      siteurl = siteurl0 @ ''/webservice/rest/server.php?moodlewsrestformat=json'';
                      ajaxData = data1
                  in case ws_post e siteurl h2 ajaxData of
                       None \<Rightarrow>
                         (h2, \<lparr>ajax = Some (siteurl, ajaxData), body = None,
                               outcome = Returns (Rejected (LangKey ''mm.core.cannotconnect''))\<rparr>)
                     | Some j \<Rightarrow>
                         (case decode h2 j of
                            (h3, decoded) \<Rightarrow>
                              (let response = Ref (length h3);
                                   h4 = h3 @ [\<lparr>is_array = False, props = [(''data'', decoded)]\<rparr>]
                               in case call_success e ps h4 response of
                                    (h5, r) \<Rightarrow>
                                      (h5, \<lparr>ajax = Some (siteurl, ajaxData),
                                            body = Some decoded,
                                            outcome = Returns r\<rparr>))))))"

text \<open>
  Example: a caller's heap with the arguments \<open>{courseid: 7, options: [true]}\<close> at
  address 0, and servers that answer with \<open>null\<close> and with \<open>[{id: 3}]\<close>.
\<close>

definition caller_heap :: heap where
  "caller_heap =
     [\<lparr>is_array = False, props = [(''courseid'', Prim (Num 7)), (''options'', Ref 1)]\<rparr>,
      \<lparr>is_array = True, props = [(''0'', Prim (Bool True))]\<rparr>]"

definition site_preSets :: preSets where
  "site_preSets =
     \<lparr>ps_siteurl = Some ''https://school.example'', ps_wstoken = Some ''t0'',
      ps_responseExpected = False\<rparr>"

definition env_null_body :: env where
  "env_null_body = env_down\<lparr>ws_post := (\<lambda>url h ajaxData. Some (JPrim Null))\<rparr>"

definition env_users :: env where
  "env_users = env_down\<lparr>ws_post := (\<lambda>url h ajaxData.
     Some (JNode True [(''0'', JNode False [(''id'', JPrim (Num 3))])]))\<rparr>"

section \<open>Sharing between values\<close>

text \<open>
  \<open>reach h v a\<close>: the object at address \<open>a\<close> is \<open>v\<close> itself or can be reached from
  \<open>v\<close> through properties. Two values share structure when some object is reachable
  from both.
\<close>

inductive reach :: "heap \<Rightarrow> jsval \<Rightarrow> nat \<Rightarrow> bool" for h :: heap and v :: jsval where
  root: "v = Ref a \<Longrightarrow> reach h v a"
| step: "reach h v a \<Longrightarrow> a < length h \<Longrightarrow> (k, Ref b) \<in> set (props (h ! a)) \<Longrightarrow> reach h v b"

text \<open>
  \<open>closed_in lo hi h\<close>: the objects at the addresses from \<open>lo\<close> up to \<open>hi\<close> refer to
  one another only. \<open>in_region lo hi v\<close>: the value is a primitive or one of these objects.
\<close>

definition closed_in :: "nat \<Rightarrow> nat \<Rightarrow> heap \<Rightarrow> bool" where
  "closed_in lo hi h =
     (hi \<le> length h \<and>
      (\<forall>a k b. lo \<le> a \<and> a < hi \<and> (k, Ref b) \<in> set (props (h ! a)) \<longrightarrow> lo \<le> b \<and> b < hi))"

definition in_region :: "nat \<Rightarrow> nat \<Rightarrow> jsval \<Rightarrow> bool" where
  "in_region lo hi v = (case v of Prim p \<Rightarrow> True | Ref a \<Rightarrow> lo \<le> a \<and> a < hi)"

section \<open>The content of a value\<close>

text \<open>
  \<open>represents_in lo hi h t v\<close>: read in the heap \<open>h\<close>, the value \<open>v\<close> is the tree
  \<open>t\<close>: a primitive is itself; an object or array has, in order, the names of the node
  and under each name a value that is the child; and every object met on the way lies at
  an address from \<open>lo\<close> up to \<open>hi\<close>. \<open>represents h t v\<close> allows every address of the
  heap. Two values that represent the same tree have the same content, property by
  property, at every depth.
\<close>

fun represents_in :: "nat \<Rightarrow> nat \<Rightarrow> heap \<Rightarrow> json \<Rightarrow> jsval \<Rightarrow> bool"
  and fields_in :: "nat \<Rightarrow> nat \<Rightarrow> heap \<Rightarrow> (string \<times> json) list \<Rightarrow> (string \<times> jsval) list \<Rightarrow> bool"
where
  "represents_in lo hi h (JPrim p) v = (v = Prim p)"
| "represents_in lo hi h (JNode arr fs) v =
     (case v of
        Prim p \<Rightarrow> False
      | Ref a \<Rightarrow> lo \<le> a \<and> a < hi \<and> is_array (h ! a) = arr \<and> fields_in lo hi h fs (props (h ! a)))"
| "fields_in lo hi h [] ps = (ps = [])"
| "fields_in lo hi h ((k, x) # fs) ps =
     (case ps of
        [] \<Rightarrow> False
      | (k', v) # ps' \<Rightarrow> k' = k \<and> represents_in lo hi h x v \<and> fields_in lo hi h fs ps')"

definition represents :: "heap \<Rightarrow> json \<Rightarrow> jsval \<Rightarrow> bool" where
  "represents h t v = represents_in 0 (length h) h t v"

text \<open>A tree whose nodes name each child once, as every JavaScript object does.\<close>

fun wf_json :: "json \<Rightarrow> bool" and wf_fields :: "(string \<times> json) list \<Rightarrow> bool" where
  "wf_json (JPrim p) = True"
| "wf_json (JNode arr fs) = (distinct (map fst fs) \<and> wf_fields fs)"
| "wf_fields [] = True"
| "wf_fields ((k, x) # fs) = (wf_json x \<and> wf_fields fs)"

text \<open>
  The stringified copy in the spec's words ("stringified arguments"): the same tree with
  every primitive replaced by the string it converts to.
\<close>

fun stringified :: "json \<Rightarrow> json"
  and stringified_fields :: "(string \<times> json) list \<Rightarrow> (string \<times> json) list"
where
  "stringified (JPrim p) = JPrim (Str (to_string p))"
| "stringified (JNode arr fs) = JNode arr (stringified_fields fs)"
| "stringified_fields [] = []"
| "stringified_fields ((k, x) # fs) = (k, stringified x) # stringified_fields fs"

text \<open>
  \<open>built_at n h t v\<close>: the value is the tree \<open>t\<close> built from address \<open>n\<close> on: a
  primitive, or the object at \<open>n\<close> with everything below it at later addresses.
\<close>

fun built_at :: "nat \<Rightarrow> heap \<Rightarrow> json \<Rightarrow> jsval \<Rightarrow> bool" where
  "built_at n h (JPrim p) v = (v = Prim p)"
| "built_at n h (JNode arr fs) v =
     (v = Ref n \<and> n < length h \<and> is_array (h ! n) = arr
      \<and> fields_in (Suc n) (length h) h fs (props (h ! n)))"

section \<open>Facts about the string primitives\<close>

lemma indexOf_ge: "- 1 \<le> indexOf s pat"
  by (induction s) (auto simp: Let_def)

lemma indexOf_sublist: "indexOf s pat > - 1 \<longleftrightarrow> sublist pat s"
proof (induction s)
  case Nil
  then show ?case by simp
next
  case (Cons c cs)
  have "- 1 \<le> indexOf cs pat" by (rule indexOf_ge)
  then have "(indexOf cs pat < 0) = (\<not> indexOf cs pat > - 1)" by linarith
  with Cons show ?case
    by (auto simp: Let_def sublist_Cons_right)
qed

lemma isValidMoodleVersion_iff:
  "isValidMoodleVersion fs \<longleftrightarrow> (\<exists>f \<in> set fs. sublist ''component_strings'' (f_name f))"
  by (induction fs) (auto simp: indexOf_sublist)

section \<open>Registering a site\<close>

lemma fetchSiteInfo_candidate:
  "fetchSiteInfo e (setCandidateSite siteurl token st) = site_info e siteurl token"
  by (simp add: fetchSiteInfo_def setCandidateSite_def)

lemma delete_set_candidate:
  "deleteCandidateSite (setCandidateSite siteurl token st) = st\<lparr>candidateSite := None\<rparr>"
  by (simp add: deleteCandidateSite_def setCandidateSite_def)

lemma newSite_rejected_state:
  "site_info e siteurl token = Inl err \<Longrightarrow>
     newSite e siteurl token st = (st\<lparr>candidateSite := None\<rparr>, Rejected err)"
  by (simp add: newSite_def fetchSiteInfo_candidate delete_set_candidate Let_def)

lemma newSite_invalid_state:
  "site_info e siteurl token = Inr infos \<Longrightarrow> \<not> isValidMoodleVersion (i_functions infos) \<Longrightarrow>
     newSite e siteurl token st =
       (st\<lparr>candidateSite := None\<rparr>, Rejected (LangKey ''mm.login.invalidmoodleversion''))"
  by (simp add: newSite_def fetchSiteInfo_candidate delete_set_candidate Let_def)

lemma newSite_valid_state:
  "site_info e siteurl token = Inr infos \<Longrightarrow> isValidMoodleVersion (i_functions infos) \<Longrightarrow>
     newSite e siteurl token st =
       (login (createHash e (siteurl @ i_username infos))
          (setSite (createHash e (siteurl @ i_username infos)) siteurl token infos
            (addSite (createHash e (siteurl @ i_username infos)) siteurl token infos
              (setCandidateSite siteurl token st))),
        Resolved ())"
  by (simp add: newSite_def fetchSiteInfo_candidate Let_def)

lemma newSite_env_new:
  "newSite env_new siteurl token st =
     (login (''#'' @ siteurl @ ''student'')
        (setSite (''#'' @ siteurl @ ''student'') siteurl token infos_new
          (addSite (''#'' @ siteurl @ ''student'') siteurl token infos_new
            (setCandidateSite siteurl token st))),
      Resolved ())"
proof -
  have f: "site_info env_new siteurl token = Inr infos_new"
    by (simp add: env_new_def env_down_def)
  have v: "isValidMoodleVersion (i_functions infos_new)"
    by (simp add: infos_new_def)
  have h: "createHash env_new (siteurl @ i_username infos_new) = ''#'' @ siteurl @ ''student''"
    by (simp add: env_new_def env_down_def infos_new_def)
  show ?thesis
    using newSite_valid_state [OF f v, of st] by (simp only: h)
qed

text \<open>
  C1. When the metadata that \<open>newSite\<close> fetches lists no function whose name contains
  \<open>component_strings\<close>, \<open>newSite\<close> rejects with the invalid-Moodle-version error and
  the site store and the current-site pointer are as before. More generally, if either of
  the two stores differs after \<open>newSite\<close>, then the metadata fetch succeeded, the
  function list passed the validation, and the promise was resolved.
\<close>

theorem newSite_writes_only_after_validation:
  "(site_info e siteurl token = Inr infos \<and>
      (\<forall>f \<in> set (i_functions infos). \<not> sublist ''component_strings'' (f_name f))
    \<longrightarrow> snd (newSite e siteurl token st) = Rejected (LangKey ''mm.login.invalidmoodleversion'')
        \<and> sites (fst (newSite e siteurl token st)) = sites st
        \<and> current_site (fst (newSite e siteurl token st)) = current_site st)
   \<and> (sites (fst (newSite e siteurl token st)) \<noteq> sites st
        \<or> current_site (fst (newSite e siteurl token st)) \<noteq> current_site st
    \<longrightarrow> (\<exists>infos'. site_info e siteurl token = Inr infos'
          \<and> isValidMoodleVersion (i_functions infos')
          \<and> snd (newSite e siteurl token st) = Resolved ()))"
proof (intro conjI impI)
  assume a: "site_info e siteurl token = Inr infos \<and>
      (\<forall>f \<in> set (i_functions infos). \<not> sublist ''component_strings'' (f_name f))"
  then have inv: "\<not> isValidMoodleVersion (i_functions infos)"
    by (simp add: isValidMoodleVersion_iff)
  from a have eq: "newSite e siteurl token st =
      (st\<lparr>candidateSite := None\<rparr>, Rejected (LangKey ''mm.login.invalidmoodleversion''))"
    using inv by (simp add: newSite_invalid_state)
  show "snd (newSite e siteurl token st) = Rejected (LangKey ''mm.login.invalidmoodleversion'')"
    by (simp add: eq)
  show "sites (fst (newSite e siteurl token st)) = sites st"
    by (simp add: eq)
  show "current_site (fst (newSite e siteurl token st)) = current_site st"
    by (simp add: eq)
next
  assume changed: "sites (fst (newSite e siteurl token st)) \<noteq> sites st
        \<or> current_site (fst (newSite e siteurl token st)) \<noteq> current_site st"
  show "\<exists>infos'. site_info e siteurl token = Inr infos'
          \<and> isValidMoodleVersion (i_functions infos')
          \<and> snd (newSite e siteurl token st) = Resolved ()"
  proof (cases "site_info e siteurl token")
    case (Inl err)
    with changed show ?thesis by (simp add: newSite_rejected_state)
  next
    case (Inr infos')
    show ?thesis
    proof (cases "isValidMoodleVersion (i_functions infos')")
      case True
      with Inr show ?thesis by (simp add: newSite_valid_state)
    next
      case False
      with Inr changed show ?thesis by (simp add: newSite_invalid_state)
    qed
  qed
qed

theorem newSite_writes_only_after_validation_witness:
  "snd (newSite env_old ''https://school.example'' ''t0'' empty_state)
       = Rejected (LangKey ''mm.login.invalidmoodleversion'')
   \<and> sites (fst (newSite env_old ''https://school.example'' ''t0'' empty_state)) = Map.empty
   \<and> site_info env_new ''https://school.example'' ''t0'' = Inr infos_new
   \<and> isValidMoodleVersion (i_functions infos_new)
   \<and> snd (newSite env_new ''https://school.example'' ''t0'' empty_state) = Resolved ()"
proof -
  have old: "site_info env_old ''https://school.example'' ''t0'' = Inr infos_old \<and>
      (\<forall>f \<in> set (i_functions infos_old). \<not> sublist ''component_strings'' (f_name f))"
    by (simp add: env_old_def env_down_def infos_old_def sublist_Cons_right)
  have changed: "sites (fst (newSite env_new ''https://school.example'' ''t0'' empty_state))
      \<noteq> sites empty_state"
    by (simp add: newSite_env_new addSite_def setSite_def login_def setCandidateSite_def
        empty_state_def)
  from newSite_writes_only_after_validation
         [of env_old "''https://school.example''" "''t0''" infos_old empty_state] old
  have 1: "snd (newSite env_old ''https://school.example'' ''t0'' empty_state)
       = Rejected (LangKey ''mm.login.invalidmoodleversion'')
     \<and> sites (fst (newSite env_old ''https://school.example'' ''t0'' empty_state)) = Map.empty"
    by (simp add: empty_state_def)
  from newSite_writes_only_after_validation
         [of env_new "''https://school.example''" "''t0''" infos_new empty_state] changed
  have 2: "\<exists>infos'. site_info env_new ''https://school.example'' ''t0'' = Inr infos'
          \<and> isValidMoodleVersion (i_functions infos')
          \<and> snd (newSite env_new ''https://school.example'' ''t0'' empty_state) = Resolved ()"
    by blast
  have 3: "site_info env_new ''https://school.example'' ''t0'' = Inr infos_new"
    by (simp add: env_new_def env_down_def)
  from 1 2 3 show ?thesis by auto
qed

text \<open>
  C6. When the metadata fetch succeeds and the function list is valid, the id under which
  \<open>newSite\<close> stores the site is the hash of the URL followed by the user name; the
  stored record holds that id, the URL, the token and the metadata, and it is the active
  site. From every later state \<open>st'\<close> whose store still holds that record under the id
  (whichever site is active there, or none: after a logout, after a restart, after another
  site was loaded), \<open>loadSite\<close> of the id resolves, makes exactly that record the active
  site, points the current-site row at it and changes nothing else. Registering the same
  URL and user name again (whatever the token and the rest of the metadata) writes under
  the same id and adds no key to the store.
\<close>

theorem newSite_loadSite_roundtrip:
  assumes fetched: "site_info e siteurl token = Inr infos"
    and valid: "isValidMoodleVersion (i_functions infos)"
    and fetched': "site_info e siteurl token' = Inr infos'"
    and valid': "isValidMoodleVersion (i_functions infos')"
    and same_user: "i_username infos' = i_username infos"
    and kept: "sites st' (createHash e (siteurl @ i_username infos))
                 = sites (fst (newSite e siteurl token st))
                     (createHash e (siteurl @ i_username infos))"
  shows "(let siteid = createHash e (siteurl @ i_username infos);
              site = \<lparr>s_id = siteid, s_siteurl = siteurl, s_token = token, s_infos = infos\<rparr>;
              (st1, r1) = newSite e siteurl token st;
              (st2, r2) = loadSite siteid st';
              (st3, r3) = newSite e siteurl token' st1
          in r1 = Resolved () \<and> sites st1 siteid = Some site
             \<and> currentSite st1 = Some site \<and> current_site st1 1 = Some siteid
             \<and> r2 = Resolved ()
             \<and> st2 = st'\<lparr>currentSite := Some site,
                         current_site := (current_site st')(1 \<mapsto> siteid)\<rparr>
             \<and> currentSite st2 = Some site
             \<and> current_site st2 1 = Some siteid \<and> sites st2 = sites st'
             \<and> r3 = Resolved () \<and> current_site st3 1 = Some siteid
             \<and> dom (sites st3) = dom (sites st1)
             \<and> sites st3 siteid =
                 Some \<lparr>s_id = siteid, s_siteurl = siteurl, s_token = token', s_infos = infos'\<rparr>)"
proof -
  let ?siteid = "createHash e (siteurl @ i_username infos)"
  let ?site = "\<lparr>s_id = ?siteid, s_siteurl = siteurl, s_token = token, s_infos = infos\<rparr>"
  have stored: "sites st' ?siteid = Some ?site"
    using kept
    by (simp add: newSite_valid_state [OF fetched valid] login_def setSite_def addSite_def
        setCandidateSite_def)
  have loaded: "loadSite ?siteid st' =
      (st'\<lparr>currentSite := Some ?site, current_site := (current_site st')(1 \<mapsto> ?siteid)\<rparr>,
       Resolved ())"
    by (simp add: loadSite_def stored login_def setSite_def)
  show ?thesis
    using same_user
    by (simp add: newSite_valid_state [OF fetched valid]
        newSite_valid_state [OF fetched' valid'] loaded
        login_def setSite_def addSite_def setCandidateSite_def Let_def insert_absorb)
qed

theorem newSite_loadSite_roundtrip_witness:
  "(let siteid = ''#https://school.examplestudent'';
        site = \<lparr>s_id = siteid, s_siteurl = ''https://school.example'', s_token = ''t0'',
                 s_infos = infos_new\<rparr>;
        st1 = fst (newSite env_new ''https://school.example'' ''t0'' empty_state);
        st' = fst (logout st1);
        st2 = fst (loadSite siteid st')
    in sites st1 siteid = Some site
       \<and> currentSite st' = None \<and> current_site st' 1 = None
       \<and> snd (loadSite siteid st') = Resolved () \<and> currentSite st2 = Some site
       \<and> current_site st2 1 = Some siteid)"
proof -
  let ?st1 = "fst (newSite env_new ''https://school.example'' ''t0'' empty_state)"
  have f: "site_info env_new ''https://school.example'' ''t0'' = Inr infos_new"
    and f': "site_info env_new ''https://school.example'' ''t1'' = Inr infos_new"
    by (simp_all add: env_new_def env_down_def)
  have v: "isValidMoodleVersion (i_functions infos_new)"
    by (simp add: infos_new_def)
  have h: "createHash env_new (''https://school.example'' @ i_username infos_new)
      = ''#https://school.examplestudent''"
    by (simp add: env_new_def env_down_def infos_new_def)
  have k: "sites (fst (logout ?st1))
             (createHash env_new (''https://school.example'' @ i_username infos_new))
         = sites ?st1 (createHash env_new (''https://school.example'' @ i_username infos_new))"
    by (simp add: logout_def mmSite_logout_def Let_def)
  have out: "currentSite (fst (logout ?st1)) = None"
    "current_site (fst (logout ?st1)) 1 = None"
    by (simp_all add: logout_def mmSite_logout_def Let_def)
  from newSite_loadSite_roundtrip [OF f v f' v refl k] out show ?thesis
    unfolding h by (simp add: Let_def split: prod.splits)
qed

text \<open>
  C10. \<open>getSiteURL\<close> is never rejected and never left unsettled. Without a site id it
  resolves with the URL of the active site; with the id of a stored site it resolves with
  that site's URL; with an id that is not stored it resolves with \<open>undefined\<close>
  (\<open>None\<close>).
\<close>

theorem getSiteURL_never_rejected:
  "(\<forall>err. getSiteURL siteid st \<noteq> Rejected err) \<and> getSiteURL siteid st \<noteq> Pending
   \<and> getSiteURL None st = Resolved (map_option s_siteurl (currentSite st))
   \<and> (sites st i = Some site \<longrightarrow> getSiteURL (Some i) st = Resolved (Some (s_siteurl site)))
   \<and> (sites st i = None \<longrightarrow> getSiteURL (Some i) st = Resolved None)"
  by (simp add: getSiteURL_def getURL_def split: option.splits)

theorem getSiteURL_never_rejected_witness:
  "getSiteURL (Some ''#https://school.examplestudent'')
       (fst (newSite env_new ''https://school.example'' ''t0'' empty_state))
     = Resolved (Some ''https://school.example'')
   \<and> getSiteURL (Some ''nobody'')
       (fst (newSite env_new ''https://school.example'' ''t0'' empty_state))
     = Resolved None"
proof -
  let ?st = "fst (newSite env_new ''https://school.example'' ''t0'' empty_state)"
  let ?site = "\<lparr>s_id = ''#https://school.examplestudent'', s_siteurl = ''https://school.example'',
                 s_token = ''t0'', s_infos = infos_new\<rparr>"
  have st: "sites ?st = [''#https://school.examplestudent'' \<mapsto> ?site]"
    by (simp add: newSite_env_new addSite_def setSite_def login_def setCandidateSite_def
        empty_state_def)
  have a: "sites ?st ''#https://school.examplestudent'' = Some ?site"
    and b: "sites ?st ''nobody'' = None"
    by (simp_all add: st)
  from getSiteURL_never_rejected
         [of "Some ''nobody''" ?st "''#https://school.examplestudent''" ?site] a
  have 1: "getSiteURL (Some ''#https://school.examplestudent'') ?st
      = Resolved (Some ''https://school.example'')"
    by simp
  from getSiteURL_never_rejected [of "Some ''nobody''" ?st "''nobody''"] b
  have 2: "getSiteURL (Some ''nobody'') ?st = Resolved None"
    by simp
  from 1 2 show ?thesis by simp
qed

section \<open>The browser SSO callback\<close>

lemma split_from_not_Nil: "split_from sep piece s \<noteq> []"
  by (induction sep piece s rule: split_from.induct) auto

lemma js_split_not_Nil: "js_split s sep \<noteq> []"
  by (simp add: js_split_def split_from_not_Nil)











section \<open>The capability probe\<close>

lemma checkMobileLocalPlugin_no_setting:
  "config st ''wsextservice'' = None \<Longrightarrow>
     checkMobileLocalPlugin e siteurl st = (st, Resolved (Integer 0))"
  by (simp add: checkMobileLocalPlugin_def)

lemma checkMobileLocalPlugin_transport:
  "config st ''wsextservice'' = Some service \<Longrightarrow>
   check_post e (siteurl @ ''/local/mobile/check.php'') service = HttpError \<Longrightarrow>
     checkMobileLocalPlugin e siteurl st = (st, Resolved (Integer 0))"
  by (simp add: checkMobileLocalPlugin_def)

lemma checkMobileLocalPlugin_no_code:
  "config st ''wsextservice'' = Some service \<Longrightarrow>
   check_post e (siteurl @ ''/local/mobile/check.php'') service = HttpOk (Some response) \<Longrightarrow>
   cr_code response = None \<Longrightarrow>
     checkMobileLocalPlugin e siteurl st = (st, Rejected (LangKey ''mm.core.unexpectederror''))"
  by (simp add: checkMobileLocalPlugin_def)

text \<open>The probe never rejects with the cannot-connect message.\<close>

lemma checkMobileLocalPlugin_not_cannotconnect:
  "snd (checkMobileLocalPlugin e siteurl st) \<noteq> Rejected (LangKey ''mm.core.cannotconnect'')"
  by (simp add: checkMobileLocalPlugin_def split: option.splits http.splits)

text \<open>
  C5, as the claim states it, fails: a successful response that has no \<open>code\<close> field is
  rejected with the unexpected-error message; it is not resolved with code 0.
\<close>

theorem checkMobileLocalPlugin_missing_code_rejects:
  "snd (checkMobileLocalPlugin env_no_code ''https://moodle.example.org'' ext_state)
     = Rejected (LangKey ''mm.core.unexpectederror'')
   \<and> snd (checkMobileLocalPlugin env_no_code ''https://moodle.example.org'' ext_state)
     \<noteq> Resolved (Integer 0)"
  by (simp add: checkMobileLocalPlugin_def env_no_code_def env_down_def ext_state_def
      empty_state_def)

text \<open>
  C5, amended. For every server URL: when the service-name setting cannot be read, or the
  request to the capability-check endpoint fails at transport level, the probe resolves
  with code 0 and leaves the state as it was; when the request succeeds with a response
  that has no \<open>code\<close> field, the probe rejects with the unexpected-error message.
\<close>

theorem checkMobileLocalPlugin_transport_failure_resolves_0:
  "(config st ''wsextservice'' = None
      \<or> (\<exists>service. config st ''wsextservice'' = Some service
            \<and> check_post e (siteurl @ ''/local/mobile/check.php'') service = HttpError)
    \<longrightarrow> checkMobileLocalPlugin e siteurl st = (st, Resolved (Integer 0)))
   \<and> ((\<exists>service response. config st ''wsextservice'' = Some service
          \<and> check_post e (siteurl @ ''/local/mobile/check.php'') service = HttpOk (Some response)
          \<and> cr_code response = None)
    \<longrightarrow> checkMobileLocalPlugin e siteurl st
          = (st, Rejected (LangKey ''mm.core.unexpectederror'')))"
  by (auto simp: checkMobileLocalPlugin_no_setting checkMobileLocalPlugin_transport
      checkMobileLocalPlugin_no_code)

theorem checkMobileLocalPlugin_transport_failure_resolves_0_witness:
  "checkMobileLocalPlugin env_down ''https://moodle.example.org'' ext_state
     = (ext_state, Resolved (Integer 0))
   \<and> checkMobileLocalPlugin env_down ''https://moodle.example.org'' empty_state
     = (empty_state, Resolved (Integer 0))
   \<and> checkMobileLocalPlugin env_no_code ''https://moodle.example.org'' ext_state
     = (ext_state, Rejected (LangKey ''mm.core.unexpectederror''))"
proof -
  have c: "config ext_state ''wsextservice'' = Some ''local_mobile_app''"
    and n: "config empty_state ''wsextservice'' = None"
    by (simp_all add: ext_state_def empty_state_def)
  have d: "check_post env_down (''https://moodle.example.org'' @ ''/local/mobile/check.php'')
      ''local_mobile_app'' = HttpError"
    by (simp add: env_down_def)
  have r: "check_post env_no_code (''https://moodle.example.org'' @ ''/local/mobile/check.php'')
      ''local_mobile_app'' = HttpOk (Some \<lparr>cr_code = None, cr_error = False\<rparr>)"
    by (simp add: env_no_code_def env_down_def)
  have 1: "checkMobileLocalPlugin env_down ''https://moodle.example.org'' ext_state
     = (ext_state, Resolved (Integer 0))"
    using checkMobileLocalPlugin_transport_failure_resolves_0
            [of ext_state env_down "''https://moodle.example.org''"] c d
    by blast
  have 2: "checkMobileLocalPlugin env_down ''https://moodle.example.org'' empty_state
     = (empty_state, Resolved (Integer 0))"
    using checkMobileLocalPlugin_transport_failure_resolves_0
            [of empty_state env_down "''https://moodle.example.org''"] n
    by blast
  have "cr_code \<lparr>cr_code = None, cr_error = False\<rparr> = None" by simp
  with c r have 3: "checkMobileLocalPlugin env_no_code ''https://moodle.example.org'' ext_state
     = (ext_state, Rejected (LangKey ''mm.core.unexpectederror''))"
    using checkMobileLocalPlugin_transport_failure_resolves_0
            [of ext_state env_no_code "''https://moodle.example.org''"]
    by blast
  from 1 2 3 show ?thesis by simp
qed

section \<open>Checking a site\<close>

lemma scheme_length_https: "scheme_length (''https://'' @ url) = Some 8"
  by (simp add: scheme_length_def capital_def)

lemma formatURL_no_scheme: "scheme_length url = None \<Longrightarrow> formatURL url = ''https://'' @ url"
  by (simp add: formatURL_def)

lemma formatURL_https: "formatURL (''https://'' @ url) = ''https://'' @ url"
  using scheme_length_https [of url] by (simp add: formatURL_def)

lemma replace_scheme_https:
  "replace_scheme (''https://'' @ url) protocol = protocol @ url"
  using scheme_length_https [of url] by (simp add: replace_scheme_def)

lemma map_promise_not_cannotconnect:
  "map_promise f (snd (checkMobileLocalPlugin e u st))
     \<noteq> Rejected (LangKey ''mm.core.cannotconnect'')"
  using checkMobileLocalPlugin_not_cannotconnect [of e u st]
  by (cases "snd (checkMobileLocalPlugin e u st)") auto

text \<open>
  One call of \<open>checkSite\<close> whose normalised URL passes the gate, in terms of the URL
  \<open>siteurl2\<close> that carries the requested protocol.
\<close>

lemma checkSite_unfold:
  assumes "indexOf (formatURL siteurl) ''://localhost'' \<noteq> - 1 \<or> isValidURL e (formatURL siteurl)"
    and "protocol1 = (case protocol of None \<Rightarrow> ''https://''
                      | Some p \<Rightarrow> if p = [] then ''https://'' else p)"
    and "siteurl2 = replace_scheme (formatURL siteurl) protocol1"
  shows "checkSite e siteurl protocol st =
     (if siteExists e siteurl2
      then (case checkMobileLocalPlugin e siteurl2 st of
              (st', r) \<Rightarrow>
                (st', [siteurl2],
                 map_promise (\<lambda>code. \<lparr>r_siteurl = siteurl2, r_code = code\<rparr>) r))
      else if prefix ''https://'' siteurl2
      then (case checkSite e siteurl2 (Some ''http://'') st of
              (st', probes, r) \<Rightarrow> (st', siteurl2 # probes, r))
      else (st, [siteurl2], Rejected (LangKey ''mm.core.cannotconnect'')))"
  using assms
  by (subst checkSite.simps) (auto simp only: Let_def indexOf_0_iff split: if_splits)

text \<open>The second attempt: \<open>checkSite\<close> on the https URL with the protocol \<open>http://\<close>.\<close>

lemma checkSite_retry:
  assumes gate: "indexOf (''https://'' @ url) ''://localhost'' \<noteq> - 1
      \<or> isValidURL e (''https://'' @ url)"
  shows "checkSite e (''https://'' @ url) (Some ''http://'') st =
     (if siteExists e (''http://'' @ url)
      then (case checkMobileLocalPlugin e (''http://'' @ url) st of
              (st', r) \<Rightarrow>
                (st', [''http://'' @ url],
                 map_promise (\<lambda>code. \<lparr>r_siteurl = ''http://'' @ url, r_code = code\<rparr>) r))
      else (st, [''http://'' @ url], Rejected (LangKey ''mm.core.cannotconnect'')))"
proof -
  have g: "indexOf (formatURL (''https://'' @ url)) ''://localhost'' \<noteq> - 1
      \<or> isValidURL e (formatURL (''https://'' @ url))"
    using gate by (simp only: formatURL_https)
  have p: "''http://'' = (case Some ''http://'' of None \<Rightarrow> ''https://''
                      | Some p \<Rightarrow> if p = [] then ''https://'' else p)"
    by simp
  have r: "''http://'' @ url = replace_scheme (formatURL (''https://'' @ url)) ''http://''"
    by (simp only: formatURL_https replace_scheme_https)
  have n: "\<not> prefix ''https://'' (''http://'' @ url)"
    by simp
  show ?thesis
    by (simp only: checkSite_unfold [OF g p r] n if_False)
qed

lemma checkSite_first:
  assumes no_scheme: "scheme_length url = None"
    and gate: "indexOf (''https://'' @ url) ''://localhost'' \<noteq> - 1
      \<or> isValidURL e (''https://'' @ url)"
  shows "checkSite e url None st =
     (if siteExists e (''https://'' @ url)
      then (case checkMobileLocalPlugin e (''https://'' @ url) st of
              (st', r) \<Rightarrow>
                (st', [''https://'' @ url],
                 map_promise (\<lambda>code. \<lparr>r_siteurl = ''https://'' @ url, r_code = code\<rparr>) r))
      else (case checkSite e (''https://'' @ url) (Some ''http://'') st of
              (st', probes, r) \<Rightarrow> (st', (''https://'' @ url) # probes, r)))"
proof -
  have f: "formatURL url = ''https://'' @ url"
    by (rule formatURL_no_scheme [OF no_scheme])
  have g: "indexOf (formatURL url) ''://localhost'' \<noteq> - 1 \<or> isValidURL e (formatURL url)"
    using gate by (simp only: f)
  have p: "''https://'' = (case None of None \<Rightarrow> ''https://''
                      | Some p \<Rightarrow> if p = [] then ''https://'' else p)"
    by simp
  have r: "''https://'' @ url = replace_scheme (formatURL url) ''https://''"
    by (simp only: f replace_scheme_https)
  have n: "prefix ''https://'' (''https://'' @ url)"
    by simp
  show ?thesis
    by (simp only: checkSite_unfold [OF g p r] n if_True)
qed

text \<open>
  C4. Let the input URL have no http(s) scheme and pass the validity gate once
  \<open>https://\<close> is put in front. Called without a protocol, \<open>checkSite\<close> first asks
  \<open>siteExists\<close> for the https URL. If that succeeds, this is the only request and the
  result carries the https URL. If it fails, exactly one more request is made, for the http
  URL; when that fails too the promise is rejected with the cannot-connect message and the
  state is unchanged. The cannot-connect rejection occurs only after these two requests, and
  there are never more than two.
\<close>

theorem checkSite_one_fallback:
  assumes no_scheme: "scheme_length url = None"
    and gate: "indexOf (''https://'' @ url) ''://localhost'' \<noteq> - 1
      \<or> isValidURL e (''https://'' @ url)"
  shows "(let (st', probes, r) = checkSite e url None st in
      (siteExists e (''https://'' @ url) \<longrightarrow>
         probes = [''https://'' @ url]
         \<and> st' = fst (checkMobileLocalPlugin e (''https://'' @ url) st)
         \<and> r = map_promise (\<lambda>code. \<lparr>r_siteurl = ''https://'' @ url, r_code = code\<rparr>)
                 (snd (checkMobileLocalPlugin e (''https://'' @ url) st)))
      \<and> (\<not> siteExists e (''https://'' @ url) \<longrightarrow>
           probes = [''https://'' @ url, ''http://'' @ url])
      \<and> (\<not> siteExists e (''https://'' @ url) \<and> siteExists e (''http://'' @ url) \<longrightarrow>
           st' = fst (checkMobileLocalPlugin e (''http://'' @ url) st)
           \<and> r = map_promise (\<lambda>code. \<lparr>r_siteurl = ''http://'' @ url, r_code = code\<rparr>)
                   (snd (checkMobileLocalPlugin e (''http://'' @ url) st)))
      \<and> (\<not> siteExists e (''https://'' @ url) \<and> \<not> siteExists e (''http://'' @ url) \<longrightarrow>
           st' = st \<and> r = Rejected (LangKey ''mm.core.cannotconnect''))
      \<and> (r = Rejected (LangKey ''mm.core.cannotconnect'') \<longrightarrow>
           probes = [''https://'' @ url, ''http://'' @ url])
      \<and> length probes \<le> 2)"
proof -
  define hs where "hs = ''https://'' @ url"
  define ht where "ht = ''http://'' @ url"
  have first: "checkSite e url None st =
     (if siteExists e hs
      then (case checkMobileLocalPlugin e hs st of
              (st', r) \<Rightarrow>
                (st', [hs], map_promise (\<lambda>code. \<lparr>r_siteurl = hs, r_code = code\<rparr>) r))
      else (case checkSite e hs (Some ''http://'') st of
              (st', probes, r) \<Rightarrow> (st', hs # probes, r)))"
    unfolding hs_def by (rule checkSite_first [OF no_scheme gate])
  have retry: "checkSite e hs (Some ''http://'') st =
     (if siteExists e ht
      then (case checkMobileLocalPlugin e ht st of
              (st', r) \<Rightarrow>
                (st', [ht], map_promise (\<lambda>code. \<lparr>r_siteurl = ht, r_code = code\<rparr>) r))
      else (st, [ht], Rejected (LangKey ''mm.core.cannotconnect'')))"
    unfolding hs_def ht_def by (rule checkSite_retry [OF gate])
  have "(let (st', probes, r) = checkSite e url None st in
      (siteExists e hs \<longrightarrow>
         probes = [hs]
         \<and> st' = fst (checkMobileLocalPlugin e hs st)
         \<and> r = map_promise (\<lambda>code. \<lparr>r_siteurl = hs, r_code = code\<rparr>)
                 (snd (checkMobileLocalPlugin e hs st)))
      \<and> (\<not> siteExists e hs \<longrightarrow> probes = [hs, ht])
      \<and> (\<not> siteExists e hs \<and> siteExists e ht \<longrightarrow>
           st' = fst (checkMobileLocalPlugin e ht st)
           \<and> r = map_promise (\<lambda>code. \<lparr>r_siteurl = ht, r_code = code\<rparr>)
                   (snd (checkMobileLocalPlugin e ht st)))
      \<and> (\<not> siteExists e hs \<and> \<not> siteExists e ht \<longrightarrow>
           st' = st \<and> r = Rejected (LangKey ''mm.core.cannotconnect''))
      \<and> (r = Rejected (LangKey ''mm.core.cannotconnect'') \<longrightarrow> probes = [hs, ht])
      \<and> length probes \<le> 2)"
    using map_promise_not_cannotconnect [of "\<lambda>code. \<lparr>r_siteurl = hs, r_code = code\<rparr>" e hs st]
      map_promise_not_cannotconnect [of "\<lambda>code. \<lparr>r_siteurl = ht, r_code = code\<rparr>" e ht st]
    by (auto simp: first retry split: prod.splits)
  then show ?thesis
    unfolding hs_def ht_def .
qed

theorem checkSite_one_fallback_witness:
  "checkSite env_down ''moodle.example.org'' None empty_state =
     (empty_state, [''https://moodle.example.org'', ''http://moodle.example.org''],
      Rejected (LangKey ''mm.core.cannotconnect''))
   \<and> checkSite env_http_only ''moodle.example.org'' None empty_state =
     (empty_state, [''https://moodle.example.org'', ''http://moodle.example.org''],
      Resolved \<lparr>r_siteurl = ''http://moodle.example.org'', r_code = Integer 0\<rparr>)"
proof -
  have s: "scheme_length ''moodle.example.org'' = None"
    by (simp add: scheme_length_def capital_def)
  have g1: "indexOf (''https://'' @ ''moodle.example.org'') ''://localhost'' \<noteq> - 1
      \<or> isValidURL env_down (''https://'' @ ''moodle.example.org'')"
    and g2: "indexOf (''https://'' @ ''moodle.example.org'') ''://localhost'' \<noteq> - 1
      \<or> isValidURL env_http_only (''https://'' @ ''moodle.example.org'')"
    by (simp_all add: env_down_def env_http_only_def)
  have p: "checkMobileLocalPlugin env_http_only ''http://moodle.example.org'' empty_state
      = (empty_state, Resolved (Integer 0))"
    by (simp add: checkMobileLocalPlugin_def empty_state_def)
  have d: "\<not> siteExists env_down ''https://moodle.example.org''"
    "\<not> siteExists env_down ''http://moodle.example.org''"
    by (simp_all add: siteExists_def env_down_def)
  have h: "\<not> siteExists env_http_only ''https://moodle.example.org''"
    "siteExists env_http_only ''http://moodle.example.org''"
    by (simp_all add: siteExists_def env_http_only_def env_down_def)
  have 1: "checkSite env_down ''moodle.example.org'' None empty_state =
     (empty_state, [''https://moodle.example.org'', ''http://moodle.example.org''],
      Rejected (LangKey ''mm.core.cannotconnect''))"
    using checkSite_one_fallback [OF s g1, of empty_state]
    by (simp add: d split: prod.splits)
  have 2: "checkSite env_http_only ''moodle.example.org'' None empty_state =
     (empty_state, [''https://moodle.example.org'', ''http://moodle.example.org''],
      Resolved \<lparr>r_siteurl = ''http://moodle.example.org'', r_code = Integer 0\<rparr>)"
    using checkSite_one_fallback [OF s g2, of empty_state]
    by (simp add: h p split: prod.splits)
  from 1 2 show ?thesis by simp
qed

section \<open>Getting a user token\<close>

text \<open>A call made as a retry posts the credentials at most once and never calls itself.\<close>

lemma getUserToken_retry_posts:
  "length (fst (getUserToken e siteurl username password True st)) \<le> 1"
  by (subst getUserToken.simps)
    (simp add: Let_def split: promise.splits http.splits option.splits)

text \<open>
  Whatever the server answers, \<open>getUserToken\<close> posts the credentials at most twice: the
  depth of the retry recursion is at most 1.
\<close>

lemma getUserToken_at_most_two_posts:
  "length (fst (getUserToken e siteurl username password retry st)) \<le> 2"
proof (cases retry)
  case True
  then show ?thesis
    using getUserToken_retry_posts [of e siteurl username password st] by simp
next
  case False
  have "length (fst (getUserToken e siteurl username password False st)) \<le> 2"
    using getUserToken_retry_posts
      [of e "replace (replace siteurl ''https://'' ''https://www.'') ''http://'' ''http://www.''"
        username password st]
    by (subst getUserToken.simps)
      (auto simp: Let_def split: promise.splits http.splits option.splits prod.splits)
  with False show ?thesis by simp
qed

text \<open>
  Where \<open>logindata\<close> is defined, the first answer with the error code
  \<open>requirecorrectaccess\<close> leads to exactly one more call, made as a retry on the
  rewritten URL.
\<close>

lemma getUserToken_retry_when_logindata_defined:
  assumes "logindata_defined e"
    and "determineService siteurl st = Resolved service"
    and "token_post e (siteurl @ ''/login/token.php'') username password service
           = HttpOk (Some response)"
    and "tr_token response = None" and "tr_error response = Some err"
    and "tr_errorcode response = Some ''requirecorrectaccess''"
  shows "getUserToken e siteurl username password False st =
     (case getUserToken e
             (replace (replace siteurl ''https://'' ''https://www.'') ''http://'' ''http://www.'')
             username password True st of
        (posts, r) \<Rightarrow> ((siteurl @ ''/login/token.php'') # posts, r))"
  using assms by (subst getUserToken.simps) (simp add: Let_def)

text \<open>
  C3 on the code. The server answers the first login with the error code
  \<open>requirecorrectaccess\<close>; nothing defines \<open>logindata\<close>. The credentials are posted
  once, to the URL as given; no request goes to the \<open>www.\<close> host, and the promise is
  never settled.
\<close>

theorem getUserToken_no_retry_without_logindata:
  "getUserToken env_canonical ''https://moodle.example.org'' ''student'' ''secret'' False
     service_state
   = ([''https://moodle.example.org/login/token.php''], Pending)"
  by (subst getUserToken.simps)
    (simp add: determineService_def env_canonical_def env_down_def service_state_def
      empty_state_def Let_def)

section \<open>The cached files of a site\<close>

text \<open>A file that \<open>getFile\<close> did not find is not found by the next \<open>getFile\<close> either.\<close>

lemma getFile_again:
  "snd (getFile e path fs) = None \<Longrightarrow>
     getFile e path (fst (getFile e path fs)) = (fst (getFile e path fs), None)"
  by (cases "platform e") (auto simp: getFile_def init_def split: if_splits)

lemma getFile_files: "files (fst (getFile e path fs)) = files fs"
  by (cases "platform e") (auto simp: getFile_def init_def)

lemma getMoodleFilePath_not_cached_offline:
  assumes "fileurl \<noteq> []" and "truthy courseId" and "siteId \<noteq> []"
    and "sites st siteId = Some site"
    and "isOnline e = Some False"
    and "snd (getFile e (path_file e fileurl courseId siteId) fs) = None"
  shows "getMoodleFilePath e (Some fileurl) courseId (Some siteId) st fs =
     (fst (getFile e (path_file e fileurl courseId siteId) fs), [],
      Resolved (fixPluginfileURL e fileurl (s_token site)))"
  using assms by (auto simp: getMoodleFilePath_def Let_def split: prod.splits)

text \<open>
  C8. Let \<open>fileurl\<close>, \<open>courseId\<close> and \<open>siteId\<close> be non-empty, \<open>siteId\<close> the id of
  a stored site, the device offline, and the file not in the cache (\<open>getFile\<close> of its path
  rejects). Then \<open>getMoodleFilePath\<close> resolves with the remote download URL
  (\<open>fixPluginfileURL\<close> of the file URL and the site's token); a second call with the same
  arguments resolves with the same URL; neither call attempts a download, and the files on
  the device are unchanged.
\<close>

theorem getMoodleFilePath_offline_twice:
  assumes fileurl: "fileurl \<noteq> []" and courseId: "truthy courseId" and siteId: "siteId \<noteq> []"
    and stored: "sites st siteId = Some site"
    and offline: "isOnline e = Some False"
    and not_cached: "snd (getFile e (path_file e fileurl courseId siteId) fs) = None"
  shows "(let (fs1, downloads1, r1) =
                getMoodleFilePath e (Some fileurl) courseId (Some siteId) st fs;
              (fs2, downloads2, r2) =
                getMoodleFilePath e (Some fileurl) courseId (Some siteId) st fs1
          in r1 = Resolved (fixPluginfileURL e fileurl (s_token site))
             \<and> r2 = Resolved (fixPluginfileURL e fileurl (s_token site))
             \<and> downloads1 = [] \<and> downloads2 = []
             \<and> files fs1 = files fs \<and> files fs2 = files fs)"
proof -
  let ?p = "path_file e fileurl courseId siteId"
  let ?fs1 = "fst (getFile e ?p fs)"
  have first: "getMoodleFilePath e (Some fileurl) courseId (Some siteId) st fs =
      (?fs1, [], Resolved (fixPluginfileURL e fileurl (s_token site)))"
    by (rule getMoodleFilePath_not_cached_offline
        [OF fileurl courseId siteId stored offline not_cached])
  have again: "getFile e ?p ?fs1 = (?fs1, None)"
    by (rule getFile_again [OF not_cached])
  then have not_cached': "snd (getFile e ?p ?fs1) = None"
    by simp
  have second: "getMoodleFilePath e (Some fileurl) courseId (Some siteId) st ?fs1 =
      (?fs1, [], Resolved (fixPluginfileURL e fileurl (s_token site)))"
    using getMoodleFilePath_not_cached_offline
        [OF fileurl courseId siteId stored offline not_cached']
    by (simp add: again)
  show ?thesis
    by (simp add: first second getFile_files)
qed

theorem getMoodleFilePath_offline_twice_witness:
  "(let (fs1, downloads1, r1) =
          getMoodleFilePath env_down (Some ''https://school.example/pluginfile.php/12/pic.jpg'')
            (Num 7) (Some ''site1'') one_site_state fresh_fs;
        (fs2, downloads2, r2) =
          getMoodleFilePath env_down (Some ''https://school.example/pluginfile.php/12/pic.jpg'')
            (Num 7) (Some ''site1'') one_site_state fs1
    in r1 = Resolved ''https://school.example/pluginfile.php/12/pic.jpg?token=t0''
       \<and> r2 = Resolved ''https://school.example/pluginfile.php/12/pic.jpg?token=t0''
       \<and> downloads1 = [] \<and> downloads2 = [])"
proof -
  have 1: "''https://school.example/pluginfile.php/12/pic.jpg'' \<noteq> []"
    and 2: "truthy (Num 7)" and 3: "''site1'' \<noteq> []"
    by simp_all
  have 4: "sites one_site_state ''site1'' =
      Some \<lparr>s_id = ''site1'', s_siteurl = ''https://school.example'', s_token = ''t0'',
            s_infos = infos_new\<rparr>"
    by (simp add: one_site_state_def)
  have 5: "isOnline env_down = Some False"
    by (simp add: env_down_def)
  have 6: "snd (getFile env_down
      (path_file env_down ''https://school.example/pluginfile.php/12/pic.jpg'' (Num 7) ''site1'')
      fresh_fs) = None"
    by (simp add: getFile_def init_def checkFile_def fresh_fs_def env_down_def Let_def)
  have 7: "fixPluginfileURL env_down ''https://school.example/pluginfile.php/12/pic.jpg'' ''t0''
      = ''https://school.example/pluginfile.php/12/pic.jpg?token=t0''"
    by (simp add: env_down_def)
  show ?thesis
    using getMoodleFilePath_offline_twice [OF 1 2 3 4 5 6]
    by (simp add: 7 split: prod.splits)
qed

section \<open>The heap: what allocation and assignment leave alone\<close>

lemma length_set_prop [simp]: "length (set_prop h a k v) = length h"
  by (simp add: set_prop_def)

lemma take_set_prop [simp]: "m \<le> a \<Longrightarrow> take m (set_prop h a k v) = take m h"
  by (simp add: set_prop_def)

lemma nth_set_prop_other: "b \<noteq> a \<Longrightarrow> set_prop h a k v ! b = h ! b"
  by (simp add: set_prop_def)

lemma put_refs:
  "(k', Ref b) \<in> set (put k v ps) \<Longrightarrow> (k', Ref b) \<in> set ps \<or> v = Ref b"
  by (induction ps) (auto split: if_splits)

lemma map_of_put_same [simp]: "map_of (put k v ps) k = Some v"
  by (induction ps) auto

lemma map_of_put_other [simp]: "k' \<noteq> k \<Longrightarrow> map_of (put k v ps) k' = map_of ps k'"
  by (induction ps) auto

lemma take_take_le: "m \<le> n \<Longrightarrow> take n h' = take n h \<Longrightarrow> take m h' = take m h"
  by (metis min.absorb1 take_take)

text \<open>
  \<open>convertValuesToString\<close> only appends objects to the heap and assigns to the ones it
  has appended: the first \<open>length h\<close> objects are as before, whether it returns or runs
  out of stack.
\<close>

lemma convert_frame:
  "take (length h) (fst (convertValuesToString depth h data)) = h
     \<and> length h \<le> length (fst (convertValuesToString depth h data))"
  "m \<le> result \<longrightarrow> m \<le> length h' \<longrightarrow>
     take m (fst (convert_loop depth h' data' result els)) = take m h'
     \<and> length h' \<le> length (fst (convert_loop depth h' data' result els))"
proof (induction depth h data and depth h' data' result els
    arbitrary: and m rule: convertValuesToString_convert_loop.induct)
  case (1 h data)
  show ?case by simp
next
  case (2 depth h data)
  from "2.IH" [OF refl refl, of "length h"] show ?case
    by (simp add: Let_def)
next
  case (3 depth h data result)
  show ?case by simp
next
  case (4 depth h data result el els)
  show ?case
  proof (intro impI)
    assume m: "m \<le> result" "m \<le> length h"
    show "take m (fst (convert_loop depth h data result (el # els))) = take m h
      \<and> length h \<le> length (fst (convert_loop depth h data result (el # els)))"
    proof (cases "get_prop h data el")
      case (Prim p)
      from "4.IH"(1) [OF Prim, of m] m Prim show ?thesis
        by simp
    next
      case (Ref a)
      obtain h1 r where c: "convertValuesToString depth h (Ref a) = (h1, r)"
        by (cases "convertValuesToString depth h (Ref a)")
      from "4.IH"(2) [OF Ref] c have f: "take (length h) h1 = h" "length h \<le> length h1"
        by simp_all
      from f m have tm: "take m h1 = take m h"
        by (metis min.absorb1 take_take)
      show ?thesis
      proof (cases r)
        case None
        with Ref c tm f show ?thesis by simp
      next
        case (Some converted)
        from "4.IH"(3) [OF Ref c [symmetric] Some, of m] m f
        have "take m (fst (convert_loop depth (set_prop h1 result el converted) data result els))
            = take m h1
          \<and> length h1 \<le> length (fst (convert_loop depth (set_prop h1 result el converted)
              data result els))"
          by simp
        with Ref c Some tm f show ?thesis by simp
      qed
    qed
  qed
qed

lemma convert_result:
  "convertValuesToString depth h data = (h', Some r) \<longrightarrow> r = Ref (length h)"
  "convert_loop depth h1 data1 result els = (h1', Some r1) \<longrightarrow> r1 = Ref result"
proof (induction depth h data and depth h1 data1 result els
    arbitrary: h' r and h1' r1 rule: convertValuesToString_convert_loop.induct)
  case (1 h data)
  show ?case by simp
next
  case (2 depth h data)
  from "2.IH" [OF refl refl] show ?case by (simp add: Let_def)
next
  case (3 depth h data result)
  show ?case by auto
next
  case (4 depth h data result el els)
  show ?case
  proof (cases "get_prop h data el")
    case (Prim p)
    from "4.IH"(1) [OF Prim] Prim show ?thesis by simp
  next
    case (Ref a)
    obtain h2 r2 where c: "convertValuesToString depth h (Ref a) = (h2, r2)"
      by (cases "convertValuesToString depth h (Ref a)")
    show ?thesis
    proof (cases r2)
      case None
      with Ref c show ?thesis by simp
    next
      case (Some converted)
      from "4.IH"(3) [OF Ref c [symmetric] Some] Ref c Some show ?thesis by simp
    qed
  qed
qed

section \<open>Regions of the heap that refer to themselves only\<close>

lemma closed_in_reach:
  assumes "closed_in lo hi h" and "in_region lo hi v" and "reach h v b"
  shows "lo \<le> b \<and> b < hi"
  using assms(3)
proof (induction rule: reach.induct)
  case (root a)
  with assms(2) show ?case by (simp add: in_region_def)
next
  case (step a k b)
  with assms(1) show ?case unfolding closed_in_def by blast
qed

lemma closed_in_empty: "n \<le> length h \<Longrightarrow> closed_in n n h"
  by (simp add: closed_in_def)

lemma closed_in_frame:
  assumes "closed_in lo hi h" and "take hi h' = take hi h" and "hi \<le> length h'"
  shows "closed_in lo hi h'"
proof -
  have same: "h' ! a = h ! a" if "a < hi" for a
  proof -
    from that have "h' ! a = take hi h' ! a" by simp
    also have "\<dots> = take hi h ! a" by (simp only: assms(2))
    also from that have "\<dots> = h ! a" by simp
    finally show ?thesis .
  qed
  show ?thesis
    unfolding closed_in_def
  proof (intro conjI allI impI)
    show "hi \<le> length h'" by (rule assms(3))
  next
    fix a k b
    assume a: "lo \<le> a \<and> a < hi \<and> (k, Ref b) \<in> set (props (h' ! a))"
    then have "a < hi" by simp
    from same [OF this] a have "(k, Ref b) \<in> set (props (h ! a))" by simp
    with a assms(1) have "lo \<le> b \<and> b < hi"
      unfolding closed_in_def by blast
    then show "lo \<le> b" and "b < hi" by simp_all
  qed
qed

lemma closed_in_join:
  assumes "closed_in lo mid h" and "closed_in mid hi h" and "lo \<le> mid" and "mid \<le> hi"
  shows "closed_in lo hi h"
  unfolding closed_in_def
proof (intro conjI allI impI)
  show "hi \<le> length h" using assms(2) by (simp add: closed_in_def)
next
  fix a k b
  assume a: "lo \<le> a \<and> a < hi \<and> (k, Ref b) \<in> set (props (h ! a))"
  show "lo \<le> b"
  proof (cases "a < mid")
    case True
    with a assms(1) show ?thesis unfolding closed_in_def by blast
  next
    case False
    with a assms(2) have "mid \<le> b" unfolding closed_in_def by (meson not_less)
    with assms(3) show ?thesis by simp
  qed
  show "b < hi"
  proof (cases "a < mid")
    case True
    with a assms(1) have "b < mid" unfolding closed_in_def by blast
    with assms(4) show ?thesis by simp
  next
    case False
    with a assms(2) show ?thesis unfolding closed_in_def by (meson not_less)
  qed
qed

text \<open>A closed region stays closed when further objects, closed among themselves, follow.\<close>

lemma closed_in_extend:
  assumes "closed_in lo (length h) h" and "take (length h) h1 = h"
    and "closed_in (length h) (length h1) h1" and "lo \<le> length h" and "length h \<le> length h1"
  shows "closed_in lo (length h1) h1"
proof -
  have "take (length h) h1 = take (length h) h" using assms(2) by simp
  then have "closed_in lo (length h) h1"
    using closed_in_frame [OF assms(1)] assms(5) by blast
  then show ?thesis
    using closed_in_join assms(3,4,5) by blast
qed

lemma in_region_mono:
  "in_region lo hi v \<Longrightarrow> lo' \<le> lo \<Longrightarrow> hi \<le> hi' \<Longrightarrow> in_region lo' hi' v"
  by (cases v) (auto simp: in_region_def)

lemma closed_in_set_prop:
  assumes "closed_in lo hi h" and "hi = length h" and "lo \<le> d" and "d < hi"
    and "in_region lo hi v"
  shows "closed_in lo hi (set_prop h d k v)"
  unfolding closed_in_def
proof (intro conjI allI impI)
  show "hi \<le> length (set_prop h d k v)" using assms(2) by simp
next
  fix a k' b
  assume a: "lo \<le> a \<and> a < hi \<and> (k', Ref b) \<in> set (props (set_prop h d k v ! a))"
  have "lo \<le> b \<and> b < hi"
  proof (cases "a = d")
    case False
    with a have "(k', Ref b) \<in> set (props (h ! a))"
      by (simp add: nth_set_prop_other)
    with a assms(1) show ?thesis unfolding closed_in_def by blast
  next
    case True
    with a assms(2,4) have "(k', Ref b) \<in> set (put k v (props (h ! d)))"
      by (simp add: set_prop_def)
    then have "(k', Ref b) \<in> set (props (h ! d)) \<or> v = Ref b"
      by (rule put_refs)
    then show ?thesis
    proof
      assume "(k', Ref b) \<in> set (props (h ! d))"
      with assms(1,3,4) show ?thesis unfolding closed_in_def by blast
    next
      assume "v = Ref b"
      with assms(5) show ?thesis by (simp add: in_region_def)
    qed
  qed
  then show "lo \<le> b" and "b < hi" by simp_all
qed

lemma closed_in_append_empty:
  assumes "closed_in lo (length h) h" and "lo \<le> length h"
  shows "closed_in lo (Suc (length h)) (h @ [\<lparr>is_array = arr, props = []\<rparr>])"
  unfolding closed_in_def
proof (intro conjI allI impI)
  show "Suc (length h) \<le> length (h @ [\<lparr>is_array = arr, props = []\<rparr>])" by simp
next
  fix a k b
  assume a: "lo \<le> a \<and> a < Suc (length h)
    \<and> (k, Ref b) \<in> set (props ((h @ [\<lparr>is_array = arr, props = []\<rparr>]) ! a))"
  have "a < length h"
  proof (rule ccontr)
    assume "\<not> a < length h"
    with a have "a = length h" by simp
    with a show False by simp
  qed
  with a have "(k, Ref b) \<in> set (props (h ! a))" by (simp add: nth_append)
  with a \<open>a < length h\<close> assms(1) have "lo \<le> b \<and> b < length h"
    unfolding closed_in_def by blast
  then show "lo \<le> b" and "b < Suc (length h)" by simp_all
qed

section \<open>Decoding a response and copying a value\<close>

text \<open>Decoding only appends objects and assigns to the ones it has appended.\<close>

lemma decode_frame:
  "take (length h) (fst (decode h j)) = h \<and> length h \<le> length (fst (decode h j))"
  "m \<le> b \<longrightarrow> m \<le> length h2 \<longrightarrow>
     take m (decode_fields h2 b fs) = take m h2 \<and> length h2 \<le> length (decode_fields h2 b fs)"
proof (induction h j and h2 b fs arbitrary: and m rule: decode_decode_fields.induct)
  case (1 h p)
  show ?case by simp
next
  case (2 h arr fs)
  from "2.IH" [of "length h"] show ?case by simp
next
  case (3 h a)
  show ?case by simp
next
  case (4 h a k x fs)
  show ?case
  proof (intro impI)
    assume m: "m \<le> a" "m \<le> length h"
    obtain h' v where d: "decode h x = (h', v)" by (cases "decode h x")
    from "4.IH"(1) d have f: "take (length h) h' = h" "length h \<le> length h'" by simp_all
    from f m have tm: "take m h' = take m h" by (metis min.absorb1 take_take)
    from "4.IH"(2) [OF d [symmetric], of m] m f
    have "take m (decode_fields (set_prop h' a k v) a fs) = take m h'
      \<and> length h' \<le> length (decode_fields (set_prop h' a k v) a fs)"
      by simp
    with d tm f show "take m (decode_fields h a ((k, x) # fs)) = take m h
      \<and> length h \<le> length (decode_fields h a ((k, x) # fs))"
      by simp
  qed
qed

text \<open>
  The objects that decoding allocates refer to one another only, and the decoded value is
  a primitive or one of them.
\<close>

lemma decode_closed:
  "closed_in (length h) (length (fst (decode h j))) (fst (decode h j))
     \<and> in_region (length h) (length (fst (decode h j))) (snd (decode h j))"
  "lo \<le> b \<longrightarrow> b < length h2 \<longrightarrow> closed_in lo (length h2) h2 \<longrightarrow>
     closed_in lo (length (decode_fields h2 b fs)) (decode_fields h2 b fs)"
proof (induction h j and h2 b fs arbitrary: and lo rule: decode_decode_fields.induct)
  case (1 h p)
  show ?case by (simp add: closed_in_empty in_region_def)
next
  case (2 h arr fs)
  let ?h1 = "h @ [\<lparr>is_array = arr, props = []\<rparr>]"
  have c: "closed_in (length h) (length ?h1) ?h1"
    using closed_in_append_empty [OF closed_in_empty [of "length h" h]] by simp
  from "2.IH" [of "length h"] c
  have "closed_in (length h) (length (decode_fields ?h1 (length h) fs))
      (decode_fields ?h1 (length h) fs)"
    by simp
  moreover have "length ?h1 \<le> length (decode_fields ?h1 (length h) fs)"
    using decode_frame(2) [of 0 "length h" ?h1 fs] by simp
  ultimately show ?case by (simp add: in_region_def)
next
  case (3 h a)
  show ?case by simp
next
  case (4 h a k x fs)
  show ?case
  proof (intro impI)
    assume a: "lo \<le> a" "a < length h" and c: "closed_in lo (length h) h"
    obtain h' v where d: "decode h x = (h', v)" by (cases "decode h x")
    from decode_frame(1) [of h x] d
    have f: "take (length h) h' = h" "length h \<le> length h'" by simp_all
    from "4.IH"(1) d have n: "closed_in (length h) (length h') h'"
      "in_region (length h) (length h') v" by simp_all
    from a have lo: "lo \<le> length h" by simp
    have c': "closed_in lo (length h') h'"
      by (rule closed_in_extend [OF c f(1) n(1) lo f(2)])
    have v: "in_region lo (length h') v"
      by (rule in_region_mono [OF n(2) lo]) simp
    from a f have a': "a < length h'" by simp
    have "closed_in lo (length h') (set_prop h' a k v)"
      by (rule closed_in_set_prop [OF c' refl a(1) a' v])
    with "4.IH"(2) [OF d [symmetric], of lo] a a'
    have "closed_in lo (length (decode_fields (set_prop h' a k v) a fs))
        (decode_fields (set_prop h' a k v) a fs)"
      by simp
    with d show "closed_in lo (length (decode_fields h a ((k, x) # fs)))
        (decode_fields h a ((k, x) # fs))"
      by simp
  qed
qed

text \<open>
  Copying only appends objects and assigns to the ones it has appended, whether it returns
  or runs out of stack.
\<close>

lemma copy_frame:
  "take (length h) (fst (copy depth h source)) = h
     \<and> length h \<le> length (fst (copy depth h source))"
  "m \<le> destination \<longrightarrow> m \<le> length h1 \<longrightarrow>
     take m (fst (copy_loop depth h1 source1 destination ks)) = take m h1
     \<and> length h1 \<le> length (fst (copy_loop depth h1 source1 destination ks))"
proof (induction depth h source and depth h1 source1 destination ks
    arbitrary: and m rule: copy_copy_loop.induct)
  case (1 h source)
  show ?case by simp
next
  case (2 depth h p)
  show ?case by simp
next
  case (3 depth h a)
  from "3.IH" [OF refl refl, of "length h"] show ?case
    by (simp add: Let_def)
next
  case (4 depth h source destination)
  show ?case by simp
next
  case (5 depth h source destination key ks)
  show ?case
  proof (intro impI)
    assume m: "m \<le> destination" "m \<le> length h"
    obtain h' r where c: "copy depth h (get_prop h source key) = (h', r)"
      by (cases "copy depth h (get_prop h source key)")
    from "5.IH"(1) c have f: "take (length h) h' = h" "length h \<le> length h'"
      by simp_all
    from f m have tm: "take m h' = take m h"
      by (metis min.absorb1 take_take)
    show "take m (fst (copy_loop depth h source destination (key # ks))) = take m h
      \<and> length h \<le> length (fst (copy_loop depth h source destination (key # ks)))"
    proof (cases r)
      case None
      with c tm f show ?thesis by simp
    next
      case (Some copied)
      from "5.IH"(2) [OF c [symmetric] Some, of m] m f
      have "take m (fst (copy_loop depth (set_prop h' destination key copied) source
              destination ks)) = take m h'
        \<and> length h' \<le> length (fst (copy_loop depth (set_prop h' destination key copied)
              source destination ks))"
        by simp
      with c Some tm f show ?thesis by simp
    qed
  qed
qed

text \<open>
  The objects that copying allocates refer to one another only, and the copy is a
  primitive or one of them: a deep copy.
\<close>

lemma copy_closed:
  "copy depth h source = (h', r) \<longrightarrow>
     closed_in (length h) (length h') h'
     \<and> (\<forall>copied. r = Some copied \<longrightarrow> in_region (length h) (length h') copied)"
  "copy_loop depth h1 source1 destination ks = (h1', r1) \<longrightarrow>
     lo \<le> destination \<longrightarrow> destination < length h1 \<longrightarrow> closed_in lo (length h1) h1 \<longrightarrow>
     closed_in lo (length h1') h1' \<and> (\<forall>copied. r1 = Some copied \<longrightarrow> copied = Ref destination)"
proof (induction depth h source and depth h1 source1 destination ks
    arbitrary: h' r and h1' r1 lo rule: copy_copy_loop.induct)
  case (1 h source)
  show ?case by (auto simp: closed_in_empty)
next
  case (2 depth h p)
  show ?case by (auto simp: closed_in_empty in_region_def)
next
  case (3 depth h a)
  let ?h1 = "h @ [\<lparr>is_array = isArray h (Ref a), props = []\<rparr>]"
  show ?case
  proof (intro impI)
    assume c: "copy (Suc depth) h (Ref a) = (h', r)"
    then have l: "copy_loop depth ?h1 (Ref a) (length h) (keys ?h1 (Ref a)) = (h', r)"
      by (simp add: Let_def)
    have c1: "closed_in (length h) (length ?h1) ?h1"
      using closed_in_append_empty [OF closed_in_empty [of "length h" h]] by simp
    from "3.IH" [OF refl refl, of h' r "length h"] l c1
    have res: "closed_in (length h) (length h') h'"
      "\<forall>copied. r = Some copied \<longrightarrow> copied = Ref (length h)"
      by simp_all
    have "length ?h1 \<le> length h'"
      using copy_frame(2) [of 0 "length h" ?h1 depth "Ref a" "keys ?h1 (Ref a)"] l by simp
    then have "length h < length h'" by simp
    with res show "closed_in (length h) (length h') h'
      \<and> (\<forall>copied. r = Some copied \<longrightarrow> in_region (length h) (length h') copied)"
      by (auto simp: in_region_def)
  qed
next
  case (4 depth h source destination)
  show ?case by auto
next
  case (5 depth h source destination key ks)
  show ?case
  proof (intro impI)
    assume l: "copy_loop depth h source destination (key # ks) = (h1', r1)"
      and d: "lo \<le> destination" "destination < length h"
      and c: "closed_in lo (length h) h"
    obtain h2 r2 where cp: "copy depth h (get_prop h source key) = (h2, r2)"
      by (cases "copy depth h (get_prop h source key)")
    from copy_frame(1) [of h depth "get_prop h source key"] cp
    have f: "take (length h) h2 = h" "length h \<le> length h2" by simp_all
    from "5.IH"(1) [of h2 r2] cp
    have n: "closed_in (length h) (length h2) h2"
      "\<forall>copied. r2 = Some copied \<longrightarrow> in_region (length h) (length h2) copied"
      by simp_all
    from d have lo: "lo \<le> length h" by simp
    have c2: "closed_in lo (length h2) h2"
      by (rule closed_in_extend [OF c f(1) n(1) lo f(2)])
    show "closed_in lo (length h1') h1'
      \<and> (\<forall>copied. r1 = Some copied \<longrightarrow> copied = Ref destination)"
    proof (cases r2)
      case None
      with l cp have "h1' = h2" "r1 = None" by simp_all
      with c2 show ?thesis by simp
    next
      case (Some copied)
      with n(2) have "in_region (length h) (length h2) copied" by simp
      then have v: "in_region lo (length h2) copied"
        by (rule in_region_mono [OF _ lo]) simp
      from d f have d': "destination < length h2" by simp
      have c3: "closed_in lo (length h2) (set_prop h2 destination key copied)"
        by (rule closed_in_set_prop [OF c2 refl d(1) d' v])
      from l cp Some
      have l': "copy_loop depth (set_prop h2 destination key copied) source destination ks
          = (h1', r1)"
        by simp
      from "5.IH"(2) [OF cp [symmetric] Some, of h1' r1 lo] l' d(1) d' c3
      show ?thesis by simp
    qed
  qed
qed

section \<open>Values and the trees they represent\<close>

lemma fields_in_keys: "fields_in lo hi h fs ps \<Longrightarrow> map fst ps = map fst fs"
proof (induction fs arbitrary: ps)
  case Nil
  then show ?case by simp
next
  case (Cons f fs)
  obtain k x where f: "f = (k, x)" by (cases f)
  from Cons.prems obtain v ps' where ps: "ps = (k, v) # ps'" and r: "fields_in lo hi h fs ps'"
    unfolding f by (cases ps) auto
  from Cons.IH [OF r] show ?case by (simp add: ps f)
qed

text \<open>Only the objects between \<open>lo\<close> and \<open>hi\<close> matter.\<close>

lemma represents_in_cong:
  "(\<forall>b. lo \<le> b \<and> b < hi \<longrightarrow> h' ! b = h ! b) \<longrightarrow>
     represents_in lo hi h' t v = represents_in lo hi h t v"
  "(\<forall>b. lo \<le> b \<and> b < hi \<longrightarrow> h' ! b = h ! b) \<longrightarrow>
     fields_in lo hi h' fs ps = fields_in lo hi h fs ps"
proof (induction t and fs arbitrary: v and ps rule: wf_json_wf_fields.induct)
  case (1 p)
  show ?case by simp
next
  case (2 arr fs)
  show ?case
  proof (cases v)
    case (Prim p)
    then show ?thesis by simp
  next
    case (Ref a)
    show ?thesis
    proof
      assume same: "\<forall>b. lo \<le> b \<and> b < hi \<longrightarrow> h' ! b = h ! b"
      show "represents_in lo hi h' (JNode arr fs) v = represents_in lo hi h (JNode arr fs) v"
      proof (cases "lo \<le> a \<and> a < hi")
        case True
        with same have "h' ! a = h ! a" by simp
        with "2.IH" [of "props (h ! a)"] same Ref show ?thesis by simp
      next
        case False
        with Ref show ?thesis by auto
      qed
    qed
  qed
next
  case 3
  show ?case by simp
next
  case (4 k x fs)
  show ?case
  proof (cases ps)
    case Nil
    then show ?thesis by simp
  next
    case (Cons q ps')
    obtain k' v' where q: "q = (k', v')" by (cases q)
    from "4.IH"(1) [of v'] "4.IH"(2) [of ps'] show ?thesis
      by (simp add: Cons q)
  qed
qed

lemma represents_in_mono:
  "represents_in lo hi h t v \<longrightarrow> lo' \<le> lo \<longrightarrow> hi \<le> hi' \<longrightarrow> represents_in lo' hi' h t v"
  "fields_in lo hi h fs ps \<longrightarrow> lo' \<le> lo \<longrightarrow> hi \<le> hi' \<longrightarrow> fields_in lo' hi' h fs ps"
proof (induction t and fs arbitrary: v and ps rule: wf_json_wf_fields.induct)
  case (1 p)
  show ?case by simp
next
  case (2 arr fs)
  show ?case
  proof (cases v)
    case (Prim p)
    then show ?thesis by simp
  next
    case (Ref a)
    with "2.IH" [of "props (h ! a)"] show ?thesis by auto
  qed
next
  case 3
  show ?case by simp
next
  case (4 k x fs)
  show ?case
  proof (cases ps)
    case Nil
    then show ?thesis by simp
  next
    case (Cons q ps')
    obtain k' v' where q: "q = (k', v')" by (cases q)
    from "4.IH"(1) [of v'] "4.IH"(2) [of ps'] show ?thesis
      by (simp add: Cons q)
  qed
qed

text \<open>Inside a closed region, a value is represented by objects of the region.\<close>

lemma represents_closed:
  "closed_in lo hi h \<longrightarrow> in_region lo hi v \<longrightarrow> represents_in lo' hi' h t v \<longrightarrow>
     represents_in lo hi h t v"
  "closed_in lo hi h \<longrightarrow> (\<forall>k b. (k, Ref b) \<in> set ps \<longrightarrow> lo \<le> b \<and> b < hi) \<longrightarrow>
     fields_in lo' hi' h fs ps \<longrightarrow> fields_in lo hi h fs ps"
proof (induction t and fs arbitrary: v and ps rule: wf_json_wf_fields.induct)
  case (1 p)
  show ?case by simp
next
  case (2 arr fs)
  show ?case
  proof (cases v)
    case (Prim p)
    then show ?thesis by simp
  next
    case (Ref a)
    show ?thesis
    proof (intro impI)
      assume c: "closed_in lo hi h" and v: "in_region lo hi v"
        and r: "represents_in lo' hi' h (JNode arr fs) v"
      from v Ref have a: "lo \<le> a" "a < hi" by (simp_all add: in_region_def)
      with c have "\<forall>k b. (k, Ref b) \<in> set (props (h ! a)) \<longrightarrow> lo \<le> b \<and> b < hi"
        unfolding closed_in_def by blast
      with "2.IH" [of "props (h ! a)"] c r Ref a
      show "represents_in lo hi h (JNode arr fs) v" by simp
    qed
  qed
next
  case 3
  show ?case by simp
next
  case (4 k x fs)
  show ?case
  proof (cases ps)
    case Nil
    then show ?thesis by simp
  next
    case (Cons q ps')
    obtain k' v' where q: "q = (k', v')" by (cases q)
    show ?thesis
    proof (intro impI)
      assume c: "closed_in lo hi h"
        and refs: "\<forall>k b. (k, Ref b) \<in> set ps \<longrightarrow> lo \<le> b \<and> b < hi"
        and r: "fields_in lo' hi' h ((k, x) # fs) ps"
      from refs have v': "in_region lo hi v'"
        by (cases v') (auto simp: in_region_def Cons q)
      from refs have refs': "\<forall>k b. (k, Ref b) \<in> set ps' \<longrightarrow> lo \<le> b \<and> b < hi"
        by (simp add: Cons)
      from "4.IH"(1) [of v'] "4.IH"(2) [of ps'] c v' refs' r
      show "fields_in lo hi h ((k, x) # fs) ps"
        by (simp add: Cons q)
    qed
  qed
qed

lemma built_at_represents:
  "built_at n h t v \<Longrightarrow> represents_in n (length h) h t v"
proof (cases t)
  case (JPrim p)
  assume "built_at n h t v"
  with JPrim show ?thesis by simp
next
  case (JNode arr fs)
  assume "built_at n h t v"
  with JNode have b: "v = Ref n" "n < length h" "is_array (h ! n) = arr"
    "fields_in (Suc n) (length h) h fs (props (h ! n))"
    by simp_all
  from represents_in_mono(2) [of "Suc n" "length h" h fs "props (h ! n)" n "length h"] b(4)
  have "fields_in n (length h) h fs (props (h ! n))" by simp
  with b JNode show ?thesis by simp
qed

section \<open>Assignments to a property\<close>

lemma put_append: "k \<notin> set (map fst ps) \<Longrightarrow> put k v ps = ps @ [(k, v)]"
  by (induction ps) auto

lemma put_keys: "set (map fst (put k v ps)) = insert k (set (map fst ps))"
  by (induction ps) (force split: if_splits)+

lemma is_array_set_prop [simp]: "is_array (set_prop h a k v ! b) = is_array (h ! b)"
  by (cases "b = a") (simp_all add: set_prop_def)

lemma props_set_prop:
  "a < length h \<Longrightarrow> props (set_prop h a k v ! a) = put k v (props (h ! a))"
  by (simp add: set_prop_def)

lemma nth_frame:
  assumes "take (length h) h' = h" and "b < length h"
  shows "h' ! b = h ! b"
proof -
  from assms(2) have "h' ! b = take (length h) h' ! b" by simp
  then show ?thesis by (simp only: assms(1))
qed

lemma fields_in_put:
  "fields_in lo hi h fs ps \<Longrightarrow>
     fields_in lo hi h (put k (JPrim p) fs) (put k (Prim p) ps)"
proof (induction fs arbitrary: ps)
  case Nil
  then show ?case by simp
next
  case (Cons f fs)
  obtain k' x where f: "f = (k', x)" by (cases f)
  from Cons.prems obtain v ps' where ps: "ps = (k', v) # ps'"
    and r: "represents_in lo hi h x v" "fields_in lo hi h fs ps'"
    unfolding f by (cases ps) auto
  from Cons.IH [OF r(2)] r show ?case by (simp add: ps f)
qed

section \<open>What a loop leaves alone\<close>

lemma copy_frame_eq:
  "copy depth h source = (h', r) \<Longrightarrow> take (length h) h' = h \<and> length h \<le> length h'"
  using copy_frame(1) [of h depth source] by simp

lemma convert_frame_eq:
  "convertValuesToString depth h data = (h', r) \<Longrightarrow>
     take (length h) h' = h \<and> length h \<le> length h'"
  using convert_frame(1) [of h depth data] by simp

lemma decode_frame_eq:
  "decode h j = (h', v) \<Longrightarrow> take (length h) h' = h \<and> length h \<le> length h'"
  using decode_frame(1) [of h j] by simp

text \<open>
  A loop of \<open>copy\<close> or of \<open>convertValuesToString\<close> assigns to its own new object and
  to no other object that exists when it starts.
\<close>

lemma copy_loop_other:
  "b < length h \<Longrightarrow> b \<noteq> destination \<Longrightarrow>
     fst (copy_loop depth h source destination ks) ! b = h ! b"
proof (induction ks arbitrary: h)
  case Nil
  show ?case by simp
next
  case (Cons key ks)
  obtain h' r where c: "copy depth h (get_prop h source key) = (h', r)"
    by (cases "copy depth h (get_prop h source key)")
  from copy_frame_eq [OF c] have f: "take (length h) h' = h" "length h \<le> length h'"
    by simp_all
  from nth_frame [OF f(1) Cons.prems(1)] have same: "h' ! b = h ! b" .
  show ?case
  proof (cases r)
    case None
    with c same show ?thesis by simp
  next
    case (Some copied)
    from Cons.prems f have "b < length (set_prop h' destination key copied)" by simp
    from Cons.IH [OF this Cons.prems(2)] Cons.prems(2) c Some same show ?thesis
      by (simp add: nth_set_prop_other)
  qed
qed

lemma convert_loop_other:
  "b < length h \<Longrightarrow> b \<noteq> result \<Longrightarrow>
     fst (convert_loop depth h data result els) ! b = h ! b"
proof (induction els arbitrary: h)
  case Nil
  show ?case by simp
next
  case (Cons el els)
  show ?case
  proof (cases "get_prop h data el")
    case (Prim p)
    from Cons.prems have "b < length (set_prop h result el (Prim (Str (to_string p))))"
      by simp
    from Cons.IH [OF this Cons.prems(2)] Cons.prems(2) Prim show ?thesis
      by (simp add: nth_set_prop_other)
  next
    case (Ref a)
    obtain h' r where c: "convertValuesToString depth h (Ref a) = (h', r)"
      by (cases "convertValuesToString depth h (Ref a)")
    from convert_frame_eq [OF c] have f: "take (length h) h' = h" "length h \<le> length h'"
      by simp_all
    from nth_frame [OF f(1) Cons.prems(1)] have same: "h' ! b = h ! b" .
    show ?thesis
    proof (cases r)
      case None
      with Ref c same show ?thesis by simp
    next
      case (Some converted)
      from Cons.prems f have "b < length (set_prop h' result el converted)" by simp
      from Cons.IH [OF this Cons.prems(2)] Cons.prems(2) Ref c Some same show ?thesis
        by (simp add: nth_set_prop_other)
    qed
  qed
qed

lemma copy_loop_result:
  "copy_loop depth h source destination ks = (h', Some r) \<Longrightarrow> r = Ref destination"
proof (induction ks arbitrary: h)
  case Nil
  then show ?case by simp
next
  case (Cons key ks)
  obtain h2 r2 where c: "copy depth h (get_prop h source key) = (h2, r2)"
    by (cases "copy depth h (get_prop h source key)")
  show ?case
  proof (cases r2)
    case None
    with Cons.prems c show ?thesis by simp
  next
    case (Some copied)
    with Cons.prems c
    have "copy_loop depth (set_prop h2 destination key copied) source destination ks
        = (h', Some r)"
      by simp
    then show ?thesis by (rule Cons.IH)
  qed
qed

lemma copy_loop_length:
  "copy_loop depth h source destination ks = (h', r) \<Longrightarrow> length h \<le> length h'"
  using copy_frame(2) [of 0 destination h depth source ks] by simp

lemma convert_loop_length:
  "convert_loop depth h data result els = (h', r) \<Longrightarrow> length h \<le> length h'"
  using convert_frame(2) [of 0 result h depth data els] by simp

text \<open>What one round of a loop needs and gives.\<close>

lemma get_prop_entry:
  assumes "a < length h" and "map_of (props (h ! a)) k = Some x"
  shows "get_prop h (Ref a) k = x"
  using assms by (simp add: get_prop_def at_index_def)

lemma keys_Ref: "a < length h \<Longrightarrow> keys h (Ref a) = map fst (props (h ! a))"
  by (simp add: keys_def at_index_def)

lemma isArray_Ref: "a < length h \<Longrightarrow> isArray h (Ref a) = is_array (h ! a)"
  by (simp add: isArray_def at_index_def)

lemma fields_in_Cons:
  assumes "fields_in lo hi h fs ((k, x) # rest)"
  obtains t fs' where "fs = (k, t) # fs'" and "represents_in lo hi h t x"
    and "fields_in lo hi h fs' rest"
proof (cases fs)
  case Nil
  with assms show ?thesis by simp
next
  case (Cons f fs')
  obtain k' t where f: "f = (k', t)" by (cases f)
  from assms have "k' = k" "represents_in lo hi h t x" "fields_in lo hi h fs' rest"
    unfolding Cons f by simp_all
  with that Cons f show ?thesis by simp
qed

section \<open>The trees that copying, converting and decoding build\<close>

lemma loop_round:
  assumes d: "d < length h"
    and frame: "take (length h) h2 = h" "length h \<le> length h2"
    and child: "represents_in (length h) (length h2) h2 tx c1"
    and fresh: "key \<notin> set (map fst (props (h ! d)))"
    and other: "\<And>b. b < length h2 \<Longrightarrow> b \<noteq> d \<Longrightarrow> h' ! b = set_prop h2 d key c1 ! b"
    and len: "length h2 \<le> length h'"
    and rest: "props (h' ! d) = props (set_prop h2 d key c1 ! d) @ ps'"
      "is_array (h' ! d) = is_array (set_prop h2 d key c1 ! d)"
      "fields_in (length h2) (length h') h' fs' ps'"
  shows "\<exists>ps. props (h' ! d) = props (h ! d) @ ps \<and> is_array (h' ! d) = is_array (h ! d)
    \<and> fields_in (length h) (length h') h' ((key, tx) # fs') ps"
proof -
  from d frame have d2: "d < length h2" by simp
  have hd: "h2 ! d = h ! d" by (rule nth_frame [OF frame(1) d])
  have "props (set_prop h2 d key c1 ! d) = put key c1 (props (h2 ! d))"
    by (rule props_set_prop [OF d2])
  also have "\<dots> = props (h ! d) @ [(key, c1)]"
    unfolding hd by (rule put_append [OF fresh])
  finally have p: "props (h' ! d) = props (h ! d) @ (key, c1) # ps'"
    using rest(1) by simp
  have a: "is_array (h' ! d) = is_array (h ! d)"
    using rest(2) hd by simp
  have "\<forall>b. length h \<le> b \<and> b < length h2 \<longrightarrow> h' ! b = h2 ! b"
  proof (intro allI impI)
    fix b assume b: "length h \<le> b \<and> b < length h2"
    with d have "b \<noteq> d" by simp
    with other [of b] b show "h' ! b = h2 ! b" by (simp add: nth_set_prop_other)
  qed
  with represents_in_cong(1) [of "length h" "length h2" h' h2 tx c1] child
  have "represents_in (length h) (length h2) h' tx c1" by simp
  with represents_in_mono(1) [of "length h" "length h2" h' tx c1 "length h" "length h'"] len
  have c: "represents_in (length h) (length h') h' tx c1" by simp
  from represents_in_mono(2) [of "length h2" "length h'" h' fs' ps' "length h" "length h'"]
    rest(3) frame(2)
  have f: "fields_in (length h) (length h') h' fs' ps'" by simp
  from p a c f show ?thesis
    by (intro exI [of _ "(key, c1) # ps'"]) simp
qed

lemma loop_source:
  assumes "a < n" and "n \<le> d" and "d < length h" and "take (length h) h2 = h"
  shows "set_prop h2 d key c1 ! a = h ! a"
    and "fields_in lo n (set_prop h2 d key c1) fs rest = fields_in lo n h fs rest"
proof -
  have same: "set_prop h2 d key c1 ! b = h ! b" if "b < n" for b
  proof -
    from that assms have "b \<noteq> d" "b < length h" by simp_all
    with nth_frame [OF assms(4)] show ?thesis by (simp add: nth_set_prop_other)
  qed
  from same [OF assms(1)] show "set_prop h2 d key c1 ! a = h ! a" .
  from same have "\<forall>b. lo \<le> b \<and> b < n \<longrightarrow> set_prop h2 d key c1 ! b = h ! b" by simp
  with represents_in_cong(2) [of lo n "set_prop h2 d key c1" h fs rest]
  show "fields_in lo n (set_prop h2 d key c1) fs rest = fields_in lo n h fs rest" by simp
qed

lemma loop_keys:
  assumes "d < length h" and "take (length h) h2 = h" and "length h \<le> length h2"
    and "distinct (key # ks)"
    and "\<forall>k\<in>set (key # ks). k \<notin> set (map fst (props (h ! d)))"
  shows "\<forall>k\<in>set ks. k \<notin> set (map fst (props (set_prop h2 d key c1 ! d)))"
proof -
  from assms(1,3) have d2: "d < length h2" by simp
  have hd: "h2 ! d = h ! d" by (rule nth_frame [OF assms(2) assms(1)])
  have "set (map fst (props (set_prop h2 d key c1 ! d)))
      = insert key (set (map fst (props (h ! d))))"
    unfolding props_set_prop [OF d2] hd by (rule put_keys)
  with assms(4,5) show ?thesis by auto
qed

text \<open>
  The copy of a value that represents a tree represents the same tree, and is built from
  new objects.
\<close>

lemma copy_tree:
  "copy depth h source = (h', Some c) \<longrightarrow> wf_json t \<longrightarrow> represents_in lo n h t source \<longrightarrow>
     n \<le> length h \<longrightarrow> built_at (length h) h' t c"
  "copy_loop depth h1 source1 d ks = (h1', Some r1) \<longrightarrow> source1 = Ref a \<longrightarrow> a < n1 \<longrightarrow>
     n1 \<le> d \<longrightarrow> d < length h1 \<longrightarrow> map fst rest = ks \<longrightarrow> distinct ks \<longrightarrow>
     (\<forall>k\<in>set ks. k \<notin> set (map fst (props (h1 ! d)))) \<longrightarrow>
     (\<forall>k v. (k, v) \<in> set rest \<longrightarrow> map_of (props (h1 ! a)) k = Some v) \<longrightarrow>
     wf_fields fs \<longrightarrow> fields_in lo1 n1 h1 fs rest \<longrightarrow>
     (\<exists>ps. props (h1' ! d) = props (h1 ! d) @ ps \<and> is_array (h1' ! d) = is_array (h1 ! d)
        \<and> fields_in (length h1) (length h1') h1' fs ps)"
proof (induction depth h source and depth h1 source1 d ks
    arbitrary: h' c t lo n and h1' r1 a n1 rest fs lo1 rule: copy_copy_loop.induct)
  case (1 h source)
  show ?case by simp
next
  case (2 depth h p)
  show ?case by (cases t) auto
next
  case (3 depth h a)
  let ?h1 = "h @ [\<lparr>is_array = isArray h (Ref a), props = []\<rparr>]"
  show ?case
  proof (intro impI)
    assume c: "copy (Suc depth) h (Ref a) = (h', Some c)" and wf: "wf_json t"
      and r: "represents_in lo n h t (Ref a)" and n: "n \<le> length h"
    from r obtain arr fs where t: "t = JNode arr fs" by (cases t) simp_all
    from r have a: "a < n" and arr: "is_array (h ! a) = arr"
      and fields: "fields_in lo n h fs (props (h ! a))"
      unfolding t by simp_all
    from a n have al: "a < length h" by simp
    from c have l: "copy_loop depth ?h1 (Ref a) (length h) (keys ?h1 (Ref a)) = (h', Some c)"
      by (simp add: Let_def)
    have h1a: "?h1 ! a = h ! a" using al by (simp add: nth_append)
    have k1: "map fst (props (h ! a)) = keys ?h1 (Ref a)"
      using al by (simp add: keys_def at_index_def nth_append)
    from wf have dist_fs: "distinct (map fst fs)" and wff: "wf_fields fs"
      by (simp_all add: t)
    from fields_in_keys [OF fields] dist_fs have dist: "distinct (map fst (props (h ! a)))"
      by simp
    with k1 have dist1: "distinct (keys ?h1 (Ref a))" by simp
    have fresh: "\<forall>k\<in>set (keys ?h1 (Ref a)). k \<notin> set (map fst (props (?h1 ! length h)))"
      by simp
    have entries: "\<forall>k v. (k, v) \<in> set (props (h ! a)) \<longrightarrow> map_of (props (?h1 ! a)) k = Some v"
      unfolding h1a using dist by simp
    have "\<forall>b. lo \<le> b \<and> b < n \<longrightarrow> ?h1 ! b = h ! b" using n by (simp add: nth_append)
    with represents_in_cong(2) [of lo n ?h1 h fs "props (h ! a)"] fields
    have fields1: "fields_in lo n ?h1 fs (props (h ! a))" by simp
    have d1: "length h < length ?h1" by simp
    note ih = "3.IH" [OF refl refl, rule_format (no_asm)]
    from ih [OF l refl a n d1 k1 dist1 fresh entries wff fields1]
    obtain ps where post: "props (h' ! length h) = props (?h1 ! length h) @ ps"
      "is_array (h' ! length h) = is_array (?h1 ! length h)"
      "fields_in (length ?h1) (length h') h' fs ps"
      by blast
    from copy_loop_result [OF l] have cr: "c = Ref (length h)" .
    from copy_loop_length [OF l] have len: "length h < length h'" by simp
    from post(1) have p: "props (h' ! length h) = ps" by simp
    from post(2) arr al have ia: "is_array (h' ! length h) = arr"
      by (simp add: isArray_Ref)
    from post(3) p have "fields_in (Suc (length h)) (length h') h' fs (props (h' ! length h))"
      by simp
    with cr len ia show "built_at (length h) h' t c"
      unfolding t by simp
  qed
next
  case (4 depth h source destination)
  show ?case
  proof (intro impI)
    assume "map fst rest = []" and "fields_in lo1 n1 h fs rest"
      and "copy_loop depth h source destination [] = (h1', Some r1)"
    then have "rest = []" "h1' = h" by simp_all
    with \<open>fields_in lo1 n1 h fs rest\<close> have "fs = []" by (cases fs) auto
    with \<open>h1' = h\<close> show "\<exists>ps. props (h1' ! destination) = props (h ! destination) @ ps
        \<and> is_array (h1' ! destination) = is_array (h ! destination)
        \<and> fields_in (length h) (length h1') h1' fs ps"
      by simp
  qed
next
  case (5 depth h source destination key ks)
  show ?case
  proof (intro impI)
    assume l: "copy_loop depth h source destination (key # ks) = (h1', Some r1)"
      and src: "source = Ref a" and a: "a < n1" and n: "n1 \<le> destination"
      and d: "destination < length h"
      and ks: "map fst rest = key # ks" and dist: "distinct (key # ks)"
      and fresh: "\<forall>k\<in>set (key # ks). k \<notin> set (map fst (props (h ! destination)))"
      and entries: "\<forall>k v. (k, v) \<in> set rest \<longrightarrow> map_of (props (h ! a)) k = Some v"
      and wf: "wf_fields fs" and fields: "fields_in lo1 n1 h fs rest"
    from ks obtain x rest' where rest: "rest = (key, x) # rest'" and ks': "map fst rest' = ks"
      by (cases rest) auto
    from fields obtain tx fs' where fs: "fs = (key, tx) # fs'"
      and tx: "represents_in lo1 n1 h tx x" and fields': "fields_in lo1 n1 h fs' rest'"
      unfolding rest by (rule fields_in_Cons)
    from wf have wfx: "wf_json tx" and wf': "wf_fields fs'" by (simp_all add: fs)
    from a n d have al: "a < length h" by simp
    from entries have "map_of (props (h ! a)) key = Some x" by (simp add: rest)
    from get_prop_entry [OF al this] src have g: "get_prop h source key = x" by simp
    obtain h2 r2 where cp: "copy depth h (get_prop h source key) = (h2, r2)"
      by (cases "copy depth h (get_prop h source key)")
    from l cp obtain c1 where r2: "r2 = Some c1"
      and l': "copy_loop depth (set_prop h2 destination key c1) source destination ks
                 = (h1', Some r1)"
      by (cases r2) simp_all
    from copy_frame_eq [OF cp] have f: "take (length h) h2 = h" "length h \<le> length h2"
      by simp_all
    from n d have nl: "n1 \<le> length h" by simp
    from tx g have tx': "represents_in lo1 n1 h tx (get_prop h source key)" by simp
    note ihP = "5.IH"(1) [rule_format (no_asm)]
    from ihP [OF cp [unfolded r2] wfx tx' nl] have "built_at (length h) h2 tx c1" .
    then have child: "represents_in (length h) (length h2) h2 tx c1"
      by (rule built_at_represents)
    let ?h3 = "set_prop h2 destination key c1"
    from loop_source [OF a n d f(1)] have sa: "?h3 ! a = h ! a"
      and sf: "fields_in lo1 n1 ?h3 fs' rest' = fields_in lo1 n1 h fs' rest'"
      by simp_all
    from entries sa
    have entries': "\<forall>k v. (k, v) \<in> set rest' \<longrightarrow> map_of (props (?h3 ! a)) k = Some v"
      by (simp add: rest)
    from sf fields' have fields3: "fields_in lo1 n1 ?h3 fs' rest'" by simp
    from d f have d3: "destination < length ?h3" by simp
    from dist have dist': "distinct ks" by simp
    have fresh': "\<forall>k\<in>set ks. k \<notin> set (map fst (props (?h3 ! destination)))"
      by (rule loop_keys [OF d f dist fresh])
    note ihQ = "5.IH"(2) [OF cp [symmetric] r2, rule_format (no_asm)]
    from ihQ [OF l' src a n d3 ks' dist' fresh' entries' wf' fields3]
    obtain ps' where post: "props (h1' ! destination) = props (?h3 ! destination) @ ps'"
      "is_array (h1' ! destination) = is_array (?h3 ! destination)"
      "fields_in (length ?h3) (length h1') h1' fs' ps'"
      by blast
    have other: "h1' ! b = ?h3 ! b" if "b < length h2" "b \<noteq> destination" for b
      using copy_loop_other [of b ?h3 destination depth source ks] that l' by simp
    have len: "length h2 \<le> length h1'" using copy_loop_length [OF l'] by simp
    from post(3) have post3: "fields_in (length h2) (length h1') h1' fs' ps'" by simp
    from fresh have fk: "key \<notin> set (map fst (props (h ! destination)))" by simp
    show "\<exists>ps. props (h1' ! destination) = props (h ! destination) @ ps
        \<and> is_array (h1' ! destination) = is_array (h ! destination)
        \<and> fields_in (length h) (length h1') h1' fs ps"
      unfolding fs by (rule loop_round [OF d f child fk other len post(1) post(2) post3])
  qed
qed

text \<open>
  \<open>convertValuesToString\<close> of an object or array that represents a tree builds, from new
  objects, the tree with every primitive replaced by its string.
\<close>

lemma convert_tree:
  "convertValuesToString depth h data = (h', Some r) \<longrightarrow> wf_json (JNode arr fs0) \<longrightarrow>
     represents_in lo n h (JNode arr fs0) data \<longrightarrow> n \<le> length h \<longrightarrow>
     built_at (length h) h' (JNode arr (stringified_fields fs0)) r"
  "convert_loop depth h1 data1 d els = (h1', Some r1) \<longrightarrow> data1 = Ref a \<longrightarrow> a < n1 \<longrightarrow>
     n1 \<le> d \<longrightarrow> d < length h1 \<longrightarrow> map fst rest = els \<longrightarrow> distinct els \<longrightarrow>
     (\<forall>k\<in>set els. k \<notin> set (map fst (props (h1 ! d)))) \<longrightarrow>
     (\<forall>k v. (k, v) \<in> set rest \<longrightarrow> map_of (props (h1 ! a)) k = Some v) \<longrightarrow>
     wf_fields fs \<longrightarrow> fields_in lo1 n1 h1 fs rest \<longrightarrow>
     (\<exists>ps. props (h1' ! d) = props (h1 ! d) @ ps \<and> is_array (h1' ! d) = is_array (h1 ! d)
        \<and> fields_in (length h1) (length h1') h1' (stringified_fields fs) ps)"
proof (induction depth h data and depth h1 data1 d els
    arbitrary: h' r arr fs0 lo n and h1' r1 a n1 rest fs lo1
    rule: convertValuesToString_convert_loop.induct)
  case (1 h data)
  show ?case by simp
next
  case (2 depth h data)
  let ?h1 = "h @ [\<lparr>is_array = \<not> (\<not> isArray h data \<and> isObject data), props = []\<rparr>]"
  show ?case
  proof (intro impI)
    assume c: "convertValuesToString (Suc depth) h data = (h', Some r)"
      and wf: "wf_json (JNode arr fs0)"
      and r: "represents_in lo n h (JNode arr fs0) data" and n: "n \<le> length h"
    from r obtain a where dr: "data = Ref a" by (cases data) simp_all
    from r have a: "a < n" and arr: "is_array (h ! a) = arr"
      and fields: "fields_in lo n h fs0 (props (h ! a))"
      unfolding dr by simp_all
    from a n have al: "a < length h" by simp
    from c have l: "convert_loop depth ?h1 data (length h) (keys ?h1 data) = (h', Some r)"
      by (simp add: Let_def)
    have h1a: "?h1 ! a = h ! a" using al by (simp add: nth_append)
    have k1: "map fst (props (h ! a)) = keys ?h1 data"
      using al by (simp add: dr keys_def at_index_def nth_append)
    from wf have dist_fs: "distinct (map fst fs0)" and wff: "wf_fields fs0"
      by simp_all
    from fields_in_keys [OF fields] dist_fs have dist: "distinct (map fst (props (h ! a)))"
      by simp
    with k1 have dist1: "distinct (keys ?h1 data)" by simp
    have fresh: "\<forall>k\<in>set (keys ?h1 data). k \<notin> set (map fst (props (?h1 ! length h)))"
      by simp
    have entries: "\<forall>k v. (k, v) \<in> set (props (h ! a)) \<longrightarrow> map_of (props (?h1 ! a)) k = Some v"
      unfolding h1a using dist by simp
    have "\<forall>b. lo \<le> b \<and> b < n \<longrightarrow> ?h1 ! b = h ! b" using n by (simp add: nth_append)
    with represents_in_cong(2) [of lo n ?h1 h fs0 "props (h ! a)"] fields
    have fields1: "fields_in lo n ?h1 fs0 (props (h ! a))" by simp
    have d1: "length h < length ?h1" by simp
    note ih = "2.IH" [OF refl refl, rule_format (no_asm)]
    from ih [OF l dr a n d1 k1 dist1 fresh entries wff fields1]
    obtain ps where post: "props (h' ! length h) = props (?h1 ! length h) @ ps"
      "is_array (h' ! length h) = is_array (?h1 ! length h)"
      "fields_in (length ?h1) (length h') h' (stringified_fields fs0) ps"
      by blast
    from convert_result(1) [of "Suc depth" h data h' r] c have cr: "r = Ref (length h)"
      by simp
    from convert_loop_length [OF l] have len: "length h < length h'" by simp
    from post(1) have p: "props (h' ! length h) = ps" by simp
    from post(2) arr al have ia: "is_array (h' ! length h) = arr"
      by (simp add: dr isArray_Ref isObject_def)
    from post(3) p
    have "fields_in (Suc (length h)) (length h') h' (stringified_fields fs0)
        (props (h' ! length h))"
      by simp
    with cr len ia show "built_at (length h) h' (JNode arr (stringified_fields fs0)) r"
      by simp
  qed
next
  case (3 depth h data result)
  show ?case
  proof (intro impI)
    assume "map fst rest = []" and "fields_in lo1 n1 h fs rest"
      and "convert_loop depth h data result [] = (h1', Some r1)"
    then have "rest = []" "h1' = h" by simp_all
    with \<open>fields_in lo1 n1 h fs rest\<close> have "fs = []" by (cases fs) auto
    with \<open>h1' = h\<close> show "\<exists>ps. props (h1' ! result) = props (h ! result) @ ps
        \<and> is_array (h1' ! result) = is_array (h ! result)
        \<and> fields_in (length h) (length h1') h1' (stringified_fields fs) ps"
      by simp
  qed
next
  case (4 depth h data result el els)
  show ?case
  proof (intro impI)
    assume l: "convert_loop depth h data result (el # els) = (h1', Some r1)"
      and src: "data = Ref a" and a: "a < n1" and n: "n1 \<le> result"
      and d: "result < length h"
      and ks: "map fst rest = el # els" and dist: "distinct (el # els)"
      and fresh: "\<forall>k\<in>set (el # els). k \<notin> set (map fst (props (h ! result)))"
      and entries: "\<forall>k v. (k, v) \<in> set rest \<longrightarrow> map_of (props (h ! a)) k = Some v"
      and wf: "wf_fields fs" and fields: "fields_in lo1 n1 h fs rest"
    from ks obtain x rest' where rest: "rest = (el, x) # rest'" and ks': "map fst rest' = els"
      by (cases rest) auto
    from fields obtain tx fs' where fs: "fs = (el, tx) # fs'"
      and tx: "represents_in lo1 n1 h tx x" and fields': "fields_in lo1 n1 h fs' rest'"
      unfolding rest by (rule fields_in_Cons)
    from wf have wfx: "wf_json tx" and wf': "wf_fields fs'" by (simp_all add: fs)
    from a n d have al: "a < length h" by simp
    from entries have "map_of (props (h ! a)) el = Some x" by (simp add: rest)
    from get_prop_entry [OF al this] src have g: "get_prop h data el = x" by simp
    from n d have nl: "n1 \<le> length h" by simp
    from dist have dist': "distinct els" by simp
    from fresh have fk: "el \<notin> set (map fst (props (h ! result)))" by simp
    show "\<exists>ps. props (h1' ! result) = props (h ! result) @ ps
        \<and> is_array (h1' ! result) = is_array (h ! result)
        \<and> fields_in (length h) (length h1') h1' (stringified_fields fs) ps"
    proof (cases x)
      case (Prim p)
      with g have gp: "get_prop h data el = Prim p" by simp
      from tx Prim have txp: "tx = JPrim p" by (cases tx) simp_all
      let ?c1 = "Prim (Str (to_string p))"
      let ?h3 = "set_prop h result el ?c1"
      from l gp have l': "convert_loop depth ?h3 data result els = (h1', Some r1)"
        by simp
      have f: "take (length h) h = h" "length h \<le> length h" by simp_all
      have child: "represents_in (length h) (length h) h (JPrim (Str (to_string p))) ?c1"
        by simp
      from loop_source [OF a n d f(1)] have sa: "?h3 ! a = h ! a"
        and sf: "fields_in lo1 n1 ?h3 fs' rest' = fields_in lo1 n1 h fs' rest'"
        by simp_all
      from entries sa
      have entries': "\<forall>k v. (k, v) \<in> set rest' \<longrightarrow> map_of (props (?h3 ! a)) k = Some v"
        by (simp add: rest)
      from sf fields' have fields3: "fields_in lo1 n1 ?h3 fs' rest'" by simp
      from d have d3: "result < length ?h3" by simp
      have fresh': "\<forall>k\<in>set els. k \<notin> set (map fst (props (?h3 ! result)))"
        by (rule loop_keys [OF d f dist fresh])
      note ihQ = "4.IH"(1) [OF gp, rule_format (no_asm)]
      from ihQ [OF l' src a n d3 ks' dist' fresh' entries' wf' fields3]
      obtain ps' where post: "props (h1' ! result) = props (?h3 ! result) @ ps'"
        "is_array (h1' ! result) = is_array (?h3 ! result)"
        "fields_in (length ?h3) (length h1') h1' (stringified_fields fs') ps'"
        by blast
      have other: "h1' ! b = ?h3 ! b" if "b < length h" "b \<noteq> result" for b
        using convert_loop_other [of b ?h3 result depth data els] that l' by simp
      have len: "length h \<le> length h1'" using convert_loop_length [OF l'] by simp
      from post(3)
      have post3: "fields_in (length h) (length h1') h1' (stringified_fields fs') ps'"
        by simp
      from loop_round [OF d f child fk other len post(1) post(2) post3]
      show ?thesis
        unfolding fs txp by simp
    next
      case (Ref b)
      with g have gr: "get_prop h data el = Ref b" by simp
      from tx Ref obtain arrx fsx where txn: "tx = JNode arrx fsx" by (cases tx) simp_all
      obtain h2 r2 where cv: "convertValuesToString depth h (Ref b) = (h2, r2)"
        by (cases "convertValuesToString depth h (Ref b)")
      from l gr cv obtain c1 where r2: "r2 = Some c1"
        and l': "convert_loop depth (set_prop h2 result el c1) data result els
                   = (h1', Some r1)"
        by (cases r2) simp_all
      from convert_frame_eq [OF cv] have f: "take (length h) h2 = h" "length h \<le> length h2"
        by simp_all
      from tx Ref txn have tx': "represents_in lo1 n1 h (JNode arrx fsx) (Ref b)" by simp
      from wfx txn have wfx': "wf_json (JNode arrx fsx)" by simp
      note ihP = "4.IH"(2) [OF gr, rule_format (no_asm)]
      from ihP [OF cv [unfolded r2] wfx' tx' nl]
      have "built_at (length h) h2 (JNode arrx (stringified_fields fsx)) c1" .
      then have child: "represents_in (length h) (length h2) h2
          (JNode arrx (stringified_fields fsx)) c1"
        by (rule built_at_represents)
      let ?h3 = "set_prop h2 result el c1"
      from loop_source [OF a n d f(1)] have sa: "?h3 ! a = h ! a"
        and sf: "fields_in lo1 n1 ?h3 fs' rest' = fields_in lo1 n1 h fs' rest'"
        by simp_all
      from entries sa
      have entries': "\<forall>k v. (k, v) \<in> set rest' \<longrightarrow> map_of (props (?h3 ! a)) k = Some v"
        by (simp add: rest)
      from sf fields' have fields3: "fields_in lo1 n1 ?h3 fs' rest'" by simp
      from d f have d3: "result < length ?h3" by simp
      have fresh': "\<forall>k\<in>set els. k \<notin> set (map fst (props (?h3 ! result)))"
        by (rule loop_keys [OF d f dist fresh])
      note ihQ = "4.IH"(3) [OF gr cv [symmetric] r2, rule_format (no_asm)]
      from ihQ [OF l' src a n d3 ks' dist' fresh' entries' wf' fields3]
      obtain ps' where post: "props (h1' ! result) = props (?h3 ! result) @ ps'"
        "is_array (h1' ! result) = is_array (?h3 ! result)"
        "fields_in (length ?h3) (length h1') h1' (stringified_fields fs') ps'"
        by blast
      have other: "h1' ! b = ?h3 ! b" if "b < length h2" "b \<noteq> result" for b
        using convert_loop_other [of b ?h3 result depth data els] that l' by simp
      have len: "length h2 \<le> length h1'" using convert_loop_length [OF l'] by simp
      from post(3)
      have post3: "fields_in (length h2) (length h1') h1' (stringified_fields fs') ps'"
        by simp
      from loop_round [OF d f child fk other len post(1) post(2) post3]
      show ?thesis
        unfolding fs txn by simp
    qed
  qed
qed

text \<open>Decoding a tree whose nodes name each child once builds that tree from new objects.\<close>

lemma decode_fields_other:
  "b < length h \<Longrightarrow> b \<noteq> a \<Longrightarrow> decode_fields h a fs ! b = h ! b"
proof (induction fs arbitrary: h)
  case Nil
  show ?case by simp
next
  case (Cons f fs)
  obtain k x where f: "f = (k, x)" by (cases f)
  obtain h' v where d: "decode h x = (h', v)" by (cases "decode h x")
  from decode_frame_eq [OF d] have fr: "take (length h) h' = h" "length h \<le> length h'"
    by simp_all
  from nth_frame [OF fr(1) Cons.prems(1)] have same: "h' ! b = h ! b" .
  from Cons.prems fr have "b < length (set_prop h' a k v)" by simp
  from Cons.IH [OF this Cons.prems(2)] Cons.prems(2) d same show ?case
    by (simp add: f nth_set_prop_other)
qed

lemma decode_fields_length: "length h \<le> length (decode_fields h a fs)"
  using decode_frame(2) [of 0 a h fs] by simp

lemma decode_tree:
  "wf_json j \<longrightarrow> built_at (length h) (fst (decode h j)) j (snd (decode h j))"
  "d < length h1 \<longrightarrow> distinct (map fst fs) \<longrightarrow>
     (\<forall>k\<in>set (map fst fs). k \<notin> set (map fst (props (h1 ! d)))) \<longrightarrow> wf_fields fs \<longrightarrow>
     (\<exists>ps. props (decode_fields h1 d fs ! d) = props (h1 ! d) @ ps
        \<and> is_array (decode_fields h1 d fs ! d) = is_array (h1 ! d)
        \<and> fields_in (length h1) (length (decode_fields h1 d fs)) (decode_fields h1 d fs) fs ps)"
proof (induction h j and h1 d fs rule: decode_decode_fields.induct)
  case (1 h p)
  show ?case by simp
next
  case (2 h arr fs)
  let ?h1 = "h @ [\<lparr>is_array = arr, props = []\<rparr>]"
  let ?h' = "decode_fields ?h1 (length h) fs"
  show ?case
  proof
    assume wf: "wf_json (JNode arr fs)"
    then have "distinct (map fst fs)" "wf_fields fs" by simp_all
    with "2.IH" obtain ps where post: "props (?h' ! length h) = props (?h1 ! length h) @ ps"
      "is_array (?h' ! length h) = is_array (?h1 ! length h)"
      "fields_in (length ?h1) (length ?h') ?h' fs ps"
      by auto
    from decode_fields_length [of ?h1 "length h" fs] have "length h < length ?h'" by simp
    with post show "built_at (length h) (fst (decode h (JNode arr fs))) (JNode arr fs)
        (snd (decode h (JNode arr fs)))"
      by simp
  qed
next
  case (3 h a)
  show ?case by simp
next
  case (4 h a k x fs)
  obtain h2 v where dc: "decode h x = (h2, v)" by (cases "decode h x")
  let ?h3 = "set_prop h2 a k v"
  let ?h' = "decode_fields ?h3 a fs"
  show ?case
  proof (intro impI)
    assume d: "a < length h" and dist: "distinct (map fst ((k, x) # fs))"
      and fresh: "\<forall>k'\<in>set (map fst ((k, x) # fs)). k' \<notin> set (map fst (props (h ! a)))"
      and wf: "wf_fields ((k, x) # fs)"
    from decode_frame_eq [OF dc] have f: "take (length h) h2 = h" "length h \<le> length h2"
      by simp_all
    from wf "4.IH"(1) dc have "built_at (length h) h2 x v" by simp
    then have child: "represents_in (length h) (length h2) h2 x v"
      by (rule built_at_represents)
    from dist have dist0: "distinct (k # map fst fs)" by simp
    from fresh have fresh0: "\<forall>k'\<in>set (k # map fst fs). k' \<notin> set (map fst (props (h ! a)))"
      by simp
    have fresh': "\<forall>k'\<in>set (map fst fs). k' \<notin> set (map fst (props (?h3 ! a)))"
      by (rule loop_keys [OF d f dist0 fresh0])
    from d f have d3: "a < length ?h3" by simp
    from dist have dist': "distinct (map fst fs)" by simp
    from wf have wf': "wf_fields fs" by simp
    note ih = "4.IH"(2) [OF dc [symmetric], rule_format (no_asm)]
    from ih [OF d3 dist' fresh' wf']
    obtain ps' where post: "props (?h' ! a) = props (?h3 ! a) @ ps'"
      "is_array (?h' ! a) = is_array (?h3 ! a)"
      "fields_in (length ?h3) (length ?h') ?h' fs ps'"
      by blast
    have other: "?h' ! b = ?h3 ! b" if "b < length h2" "b \<noteq> a" for b
      using decode_fields_other [of b ?h3 a fs] that by simp
    have len: "length h2 \<le> length ?h'"
      using decode_fields_length [of ?h3 a fs] by simp
    from post(3) have post3: "fields_in (length h2) (length ?h') ?h' fs ps'" by simp
    from fresh have fk: "k \<notin> set (map fst (props (h ! a)))" by simp
    from loop_round [OF d f child fk other len post(1) post(2) post3]
    show "\<exists>ps. props (decode_fields h a ((k, x) # fs) ! a) = props (h ! a) @ ps
        \<and> is_array (decode_fields h a ((k, x) # fs) ! a) = is_array (h ! a)
        \<and> fields_in (length h) (length (decode_fields h a ((k, x) # fs)))
             (decode_fields h a ((k, x) # fs)) ((k, x) # fs) ps"
      by (simp add: dc)
  qed
qed

text \<open>
  The decoded body of a response represents the tree the server sent, and what represents
  a tree in some heap still does when further objects are allocated.
\<close>

lemma represents_frame:
  assumes "represents_in lo hi h t v" and "hi \<le> length h" and "take (length h) h' = h"
  shows "represents h' t v"
proof -
  have "length (take (length h) h') = length h" by (simp only: assms(3))
  then have l: "length h \<le> length h'" by simp
  have "\<forall>b. lo \<le> b \<and> b < hi \<longrightarrow> h' ! b = h ! b"
    using nth_frame [OF assms(3)] assms(2) by simp
  with represents_in_cong(1) [of lo hi h' h t v] assms(1)
  have "represents_in lo hi h' t v" by simp
  with represents_in_mono(1) [of lo hi h' t v 0 "length h'"] assms(2) l
  show ?thesis by (simp add: represents_def)
qed

lemma decode_represents:
  assumes "wf_json j" and "decode h j = (h', v)"
  shows "represents h' j v"
proof -
  from decode_tree(1) [of j h] assms have "built_at (length h) h' j v" by simp
  then have "represents_in (length h) (length h') h' j v" by (rule built_at_represents)
  then show ?thesis by (rule represents_frame) simp_all
qed

text \<open>
  The object \<open>ajaxData\<close>: the stringified tree of the arguments, with the two fields that
  \<open>call\<close> assigns.
\<close>

lemma ajax_tree:
  assumes built: "built_at a h1 (JNode arr sf) r"
    and h2: "h2 = set_prop (set_prop h1 a ''wsfunction'' (Prim (Str method)))
                a ''wstoken'' (Prim (Str wstoken))"
    and frame: "take (length h2) h' = h2"
  shows "represents h'
     (JNode arr (put ''wstoken'' (JPrim (Str wstoken))
                   (put ''wsfunction'' (JPrim (Str method)) sf))) (Ref a)"
proof -
  from built have a: "a < length h1" and arr: "is_array (h1 ! a) = arr"
    and fields: "fields_in (Suc a) (length h1) h1 sf (props (h1 ! a))"
    by simp_all
  have l2: "length h2 = length h1" by (simp add: h2)
  have p2: "props (h2 ! a) = put ''wstoken'' (Prim (Str wstoken))
      (put ''wsfunction'' (Prim (Str method)) (props (h1 ! a)))"
    using a by (simp add: h2 set_prop_def)
  have a2: "is_array (h2 ! a) = arr"
    using arr by (simp add: h2)
  have "\<forall>b. Suc a \<le> b \<and> b < length h1 \<longrightarrow> h2 ! b = h1 ! b"
    by (simp add: h2 nth_set_prop_other)
  with represents_in_cong(2) [of "Suc a" "length h1" h2 h1 sf "props (h1 ! a)"] fields
  have "fields_in (Suc a) (length h1) h2 sf (props (h1 ! a))" by simp
  then have "fields_in (Suc a) (length h1) h2
      (put ''wsfunction'' (JPrim (Str method)) sf)
      (put ''wsfunction'' (Prim (Str method)) (props (h1 ! a)))"
    by (rule fields_in_put)
  then have "fields_in (Suc a) (length h1) h2
      (put ''wstoken'' (JPrim (Str wstoken)) (put ''wsfunction'' (JPrim (Str method)) sf))
      (props (h2 ! a))"
    unfolding p2 by (rule fields_in_put)
  with represents_in_mono(2) [of "Suc a" "length h1" h2 _ "props (h2 ! a)" a "length h2"] l2
  have "fields_in a (length h2) h2
      (put ''wstoken'' (JPrim (Str wstoken)) (put ''wsfunction'' (JPrim (Str method)) sf))
      (props (h2 ! a))"
    by simp
  with a a2 l2 have "represents_in a (length h2) h2
      (JNode arr (put ''wstoken'' (JPrim (Str wstoken))
                    (put ''wsfunction'' (JPrim (Str method)) sf))) (Ref a)"
    by simp
  then show ?thesis
    by (rule represents_frame) (simp_all add: frame)
qed

section \<open>The web service client\<close>

text \<open>
  The response object of \<open>$http\<close> is an object, so \<open>!data\<close> is false and the first
  branch of the success callback is never taken: a body that is empty, \<open>null\<close> or absent
  is rejected whatever \<open>responseExpected\<close> says.
\<close>

lemma call_success_empty_body:
  "\<not> truthy_val (get_prop h (Ref response) ''data'') \<Longrightarrow>
     call_success e ps h (Ref response) = (h, Rejected (LangKey ''mm.core.cannotconnect''))"
  by (simp add: call_success_def truthy_val_def)

lemma convert_caller_heap:
  "convertValuesToString 100 caller_heap (Ref 0) =
     (caller_heap @
        [\<lparr>is_array = False, props = [(''courseid'', Prim (Str ''7'')), (''options'', Ref 3)]\<rparr>,
         \<lparr>is_array = True, props = [(''0'', Prim (Str ''true''))]\<rparr>],
      Some (Ref 2))"
  by (simp add: caller_heap_def eval_nat_numeral keys_def at_index_def get_prop_def
      set_prop_def isArray_def isObject_def Let_def digits.simps)

text \<open>
  C7 on the code. The caller declares that no response is expected
  (\<open>responseExpected\<close> false); the request succeeds and the body of the response is
  \<open>null\<close>. The promise is rejected with the cannot-connect message; it is not resolved
  with an empty result.
\<close>

theorem call_null_body_rejected:
  "ps_responseExpected site_preSets = False
   \<and> body (snd (call env_null_body ''core_x'' (Ref 0) (Some site_preSets) caller_heap))
       = Some (Prim Null)
   \<and> outcome (snd (call env_null_body ''core_x'' (Ref 0) (Some site_preSets) caller_heap))
       = Returns (Rejected (LangKey ''mm.core.cannotconnect''))"
proof -
  have sd: "stack_depth env_null_body = 100"
    by (simp add: env_null_body_def env_down_def)
  show ?thesis
    by (simp add: call_def sd convert_caller_heap checked_preSets_def site_preSets_def)
      (simp add: env_null_body_def env_down_def caller_heap_def set_prop_def
        call_success_empty_body get_prop_def at_index_def truthy_val_def)
qed

lemma take_frame_trans:
  assumes "take (length h1) h2 = h1" and "take (length h) h1 = h"
  shows "take (length h) h2 = h"
proof -
  have "length (take (length h) h1) = length h"
    by (simp only: assms(2))
  then have "length h \<le> length h1"
    by simp
  then have "take (length h) h2 = take (length h) (take (length h1) h2)"
    by (simp add: min.absorb1)
  with assms show ?thesis by simp
qed

lemma get_prop_frame:
  assumes "a < length h" and "take (length h) h' = h"
  shows "get_prop h' (Ref a) k = get_prop h (Ref a) k"
proof -
  have "length (take (length h) h') = length h"
    by (simp only: assms(2))
  then have l: "length h \<le> length h'"
    by simp
  have "h' ! a = take (length h) h' ! a" using assms(1) by simp
  then have "h' ! a = h ! a" by (simp only: assms(2))
  with assms(1) l show ?thesis
    by (simp add: get_prop_def at_index_def)
qed

text \<open>The success callback leaves every object that exists when it starts as it is.\<close>

lemma call_success_frame:
  "call_success e ps h data = (h', r) \<Longrightarrow> take (length h) h' = h"
proof -
  assume c: "call_success e ps h data = (h', r)"
  let ?h0 = "h @ [\<lparr>is_array = False, props = []\<rparr>]"
  have f0: "take (length ?h0) h2 = ?h0 \<Longrightarrow> take (length h) h2 = h" for h2
    using take_frame_trans [of ?h0 h2 h] by simp
  have "h' = h \<or> h' = ?h0
    \<or> (\<exists>d x. copy (stack_depth e) h d = (h', x))
    \<or> (\<exists>d x. copy (stack_depth e) ?h0 d = (h', x))"
    using c
    by (auto simp: call_success_def split: if_splits prod.splits option.splits)
  then show ?thesis
  proof (elim disjE exE)
    assume "h' = h"
    then show ?thesis by simp
  next
    assume "h' = ?h0"
    then show ?thesis by simp
  next
    fix d x
    assume "copy (stack_depth e) h d = (h', x)"
    then show ?thesis by (simp add: copy_frame_eq)
  next
    fix d x
    assume "copy (stack_depth e) ?h0 d = (h', x)"
    then have "take (length ?h0) h' = ?h0" by (simp only: copy_frame_eq)
    then show ?thesis by (rule f0)
  qed
qed

text \<open>
  When the callback resolves, the value it resolves with is the copy of the decoded body,
  the property \<open>data\<close> of the response object.
\<close>

lemma call_success_resolved:
  "call_success e ps h (Ref response) = (h', Resolved v) \<Longrightarrow>
     copy (stack_depth e) h (get_prop h (Ref response) ''data'') = (h', Some v)"
  by (auto simp: call_success_def truthy_val_def split: if_splits prod.splits option.splits)

text \<open>The two ways \<open>call\<close> ends: before a request is sent, and after.\<close>

lemma call_not_sent:
  assumes "convertValuesToString (stack_depth e) h data = (h1, r1)"
    and "r1 = None \<or> checked_preSets preSets = None \<or> isOffline e = Some True"
  shows "fst (call e method data preSets h) = h1
    \<and> ajax (snd (call e method data preSets h)) = None
    \<and> (\<forall>v. outcome (snd (call e method data preSets h)) \<noteq> Returns (Resolved v))"
  using assms by (auto simp: call_def split: option.splits prod.splits)

lemma call_sent:
  assumes "convertValuesToString (stack_depth e) h data = (h1, Some data1)"
    and "checked_preSets preSets = Some (ps, wstoken, siteurl0)"
    and "isOffline e \<noteq> Some True"
    and "h2 = set_prop (set_prop h1 (length h) ''wsfunction'' (Prim (Str method)))
                (length h) ''wstoken'' (Prim (Str wstoken))"
    and "siteurl = siteurl0 @ ''/webservice/rest/server.php?moodlewsrestformat=json''"
  shows "call e method data preSets h =
     (case ws_post e siteurl h2 (Ref (length h)) of
        None \<Rightarrow>
          (h2, \<lparr>ajax = Some (siteurl, Ref (length h)), body = None,
                outcome = Returns (Rejected (LangKey ''mm.core.cannotconnect''))\<rparr>)
      | Some j \<Rightarrow>
          (case decode h2 j of
             (h3, decoded) \<Rightarrow>
               (case call_success e ps (h3 @ [\<lparr>is_array = False, props = [(''data'', decoded)]\<rparr>])
                       (Ref (length h3)) of
                  (h5, r) \<Rightarrow>
                    (h5, \<lparr>ajax = Some (siteurl, Ref (length h)), body = Some decoded,
                          outcome = Returns r\<rparr>))))"
proof -
  have d: "data1 = Ref (length h)"
    using convert_result(1) [of "stack_depth e" h data h1 data1] assms(1) by simp
  show ?thesis
    using assms unfolding d
    by (simp add: call_def Let_def split: option.splits prod.splits)
qed

text \<open>The new object \<open>ajaxData\<close> holds the two fields that \<open>call\<close> assigns.\<close>

lemma ajax_fields:
  assumes "a < length h1"
    and "h2 = set_prop (set_prop h1 a ''wsfunction'' (Prim (Str method)))
                a ''wstoken'' (Prim (Str wstoken))"
  shows "get_prop h2 (Ref a) ''wsfunction'' = Prim (Str method)
    \<and> get_prop h2 (Ref a) ''wstoken'' = Prim (Str wstoken)
    \<and> length h2 = length h1 \<and> take a h2 = take a h1"
  using assms by (simp add: get_prop_def at_index_def set_prop_def)

lemma convert_allocates:
  "convertValuesToString depth h data = (h', Some r) \<Longrightarrow> length h < length h'"
proof (cases depth)
  case 0
  assume "convertValuesToString depth h data = (h', Some r)"
  with 0 show ?thesis by simp
next
  case (Suc n)
  let ?h1 = "h @ [\<lparr>is_array = \<not> (\<not> isArray h data \<and> isObject data), props = []\<rparr>]"
  assume "convertValuesToString depth h data = (h', Some r)"
  with Suc have "convert_loop n ?h1 data (length h) (keys ?h1 data) = (h', Some r)"
    by (simp add: Let_def)
  with convert_frame(2) [of 0 "length h" ?h1 n data "keys ?h1 data"]
  have "length ?h1 \<le> length h'" by simp
  then show ?thesis by simp
qed

lemma checked_preSets_Some:
  "checked_preSets preSets = Some (ps, wstoken, siteurl) \<Longrightarrow>
     preSets = Some ps \<and> ps_wstoken ps = Some wstoken \<and> ps_siteurl ps = Some siteurl"
  by (auto simp: checked_preSets_def split: option.splits)

text \<open>
  C9. Whatever the method, the arguments and the \<open>preSets\<close>, and however \<open>call\<close>
  ends: every object that existed when \<open>call\<close> started is as it was, so the caller's
  \<open>data\<close> and everything it refers to are not mutated. When a request is sent,
  \<open>ajaxData\<close> is an object allocated by \<open>call\<close>, and it is this object that holds
  \<open>wsfunction\<close> and \<open>wstoken\<close>; where \<open>data\<close> is an object or array that represents
  a tree, \<open>ajaxData\<close> represents the stringified tree with these two fields put in. When
  the promise is resolved, the resolved value is a deep copy of the decoded body of the
  response: whatever tree the decoded body represents, the resolved value represents the
  same tree; no object reachable from the resolved value is reachable from the decoded
  body, and none existed when \<open>call\<close> started.
\<close>

theorem call_leaves_data_and_copies_payload:
  "(let (h', res) = call e method data preSets h in
      take (length h) h' = h
      \<and> (\<forall>siteurl ajaxData. ajax res = Some (siteurl, ajaxData) \<longrightarrow>
            ajaxData = Ref (length h)
            \<and> get_prop h' ajaxData ''wsfunction'' = Prim (Str method)
            \<and> (\<exists>ps wstoken. preSets = Some ps \<and> ps_wstoken ps = Some wstoken
                  \<and> get_prop h' ajaxData ''wstoken'' = Prim (Str wstoken)
                  \<and> (\<forall>arr fs. wf_json (JNode arr fs) \<and> represents h (JNode arr fs) data \<longrightarrow>
                        represents h'
                          (JNode arr (put ''wstoken'' (JPrim (Str wstoken))
                             (put ''wsfunction'' (JPrim (Str method))
                                (stringified_fields fs))))
                          ajaxData)))
      \<and> (\<forall>v decoded t.
            outcome res = Returns (Resolved v) \<and> body res = Some decoded
            \<and> wf_json t \<and> represents h' t decoded \<longrightarrow>
            represents h' t v)
      \<and> (\<forall>v decoded a.
            outcome res = Returns (Resolved v) \<and> body res = Some decoded \<and> reach h' v a \<longrightarrow>
            length h \<le> a \<and> \<not> reach h' decoded a))"
proof -
  obtain h1 r1 where cv: "convertValuesToString (stack_depth e) h data = (h1, r1)"
    by (cases "convertValuesToString (stack_depth e) h data")
  have f1: "take (length h) h1 = h" "length h \<le> length h1"
    using convert_frame_eq [OF cv] by simp_all
  show ?thesis
  proof (cases "r1 = None \<or> checked_preSets preSets = None \<or> isOffline e = Some True")
    case True
    from call_not_sent [OF cv True, of "method"] f1 show ?thesis
      by (simp add: case_prod_beta)
  next
    case False
    then obtain data1 ps wstoken siteurl0
      where r1: "r1 = Some data1"
        and pre: "checked_preSets preSets = Some (ps, wstoken, siteurl0)"
        and online: "isOffline e \<noteq> Some True"
      by auto
    define h2 where "h2 = set_prop (set_prop h1 (length h) ''wsfunction'' (Prim (Str method)))
                (length h) ''wstoken'' (Prim (Str wstoken))"
    define siteurl where
      "siteurl = siteurl0 @ ''/webservice/rest/server.php?moodlewsrestformat=json''"
    note sent = call_sent [OF cv [unfolded r1] pre online h2_def siteurl_def]
    have alloc: "length h < length h1"
      using convert_allocates [OF cv [unfolded r1]] .
    from ajax_fields [OF alloc h2_def]
    have fields: "get_prop h2 (Ref (length h)) ''wsfunction'' = Prim (Str method)"
      "get_prop h2 (Ref (length h)) ''wstoken'' = Prim (Str wstoken)"
      and l2: "length h2 = length h1" and t2: "take (length h) h2 = take (length h) h1"
      by simp_all
    from t2 f1 have f2: "take (length h) h2 = h" by simp
    from alloc l2 have a2: "length h < length h2" by simp
    from checked_preSets_Some [OF pre]
    have ps: "preSets = Some ps" "ps_wstoken ps = Some wstoken" by simp_all
    have content: "represents h'
        (JNode arr (put ''wstoken'' (JPrim (Str wstoken))
           (put ''wsfunction'' (JPrim (Str method)) (stringified_fields fs))))
        (Ref (length h))"
      if wf: "wf_json (JNode arr fs)" and rep: "represents h (JNode arr fs) data"
        and frame: "take (length h2) h' = h2" for arr fs h'
    proof -
      from rep have "represents_in 0 (length h) h (JNode arr fs) data"
        by (simp add: represents_def)
      with convert_tree(1) [of "stack_depth e" h data h1 data1 arr fs 0 "length h"]
        cv [unfolded r1] wf
      have "built_at (length h) h1 (JNode arr (stringified_fields fs)) data1" by simp
      then show ?thesis by (rule ajax_tree [OF _ h2_def frame])
    qed
    show ?thesis
    proof (cases "ws_post e siteurl h2 (Ref (length h))")
      case None
      have "take (length h2) h2 = h2" by simp
      note content [OF _ _ this]
      with None sent f2 fields ps show ?thesis by simp
    next
      case (Some j)
      obtain h3 decoded where dc: "decode h2 j = (h3, decoded)"
        by (cases "decode h2 j")
      define h4 where "h4 = h3 @ [\<lparr>is_array = False, props = [(''data'', decoded)]\<rparr>]"
      obtain h5 r where cs: "call_success e ps h4 (Ref (length h3)) = (h5, r)"
        by (cases "call_success e ps h4 (Ref (length h3))")
      from sent Some dc cs
      have c: "call e method data preSets h =
          (h5, \<lparr>ajax = Some (siteurl, Ref (length h)), body = Some decoded,
                outcome = Returns r\<rparr>)"
        by (simp add: h4_def)
      have f3: "take (length h2) h3 = h2" "length h2 \<le> length h3"
        using decode_frame_eq [OF dc] by simp_all
      have f45: "take (length h4) h5 = h4"
        by (rule call_success_frame [OF cs])
      have f34: "take (length h3) h4 = h3"
        by (simp add: h4_def)
      have f35: "take (length h3) h5 = h3"
        by (rule take_frame_trans [OF f45 f34])
      have f25: "take (length h2) h5 = h2"
        by (rule take_frame_trans [OF f35 f3(1)])
      have f5: "take (length h) h5 = h"
        by (rule take_frame_trans [OF f25 f2])
      have l45: "length h4 \<le> length h5"
      proof -
        have "length (take (length h4) h5) = length h4" by (simp only: f45)
        then show ?thesis by simp
      qed
      have l34: "length h3 < length h4" by (simp add: h4_def)
      have g: "get_prop h5 (Ref (length h)) k = get_prop h2 (Ref (length h)) k" for k
        by (rule get_prop_frame [OF a2 f25])
      have copied: "copy (stack_depth e) h4 decoded = (h5, Some v)" if res: "r = Resolved v" for v
      proof -
        have "get_prop h4 (Ref (length h3)) ''data'' = decoded"
          by (simp add: get_prop_def at_index_def h4_def)
        with call_success_resolved [OF cs [unfolded res]] show ?thesis by simp
      qed
      from decode_closed(1) [of h2 j] dc
      have d3: "closed_in (length h2) (length h3) h3"
        and dv: "in_region (length h2) (length h3) decoded"
        by simp_all
      have "take (length h3) h5 = take (length h3) h3" by (simp add: f35)
      from closed_in_frame [OF d3 this] l34 l45
      have d5: "closed_in (length h2) (length h3) h5" by simp
      have fresh: "length h \<le> a \<and> \<not> reach h5 decoded a"
        if res: "r = Resolved v" and reach: "reach h5 v a" for v a
      proof -
        note cp = copied [OF res]
        from copy_closed(1) [of "stack_depth e" h4 decoded h5 "Some v"] cp
        have "closed_in (length h4) (length h5) h5" "in_region (length h4) (length h5) v"
          by simp_all
        from closed_in_reach [OF this reach] have a: "length h4 \<le> a" by simp
        have "\<not> reach h5 decoded a"
        proof
          assume "reach h5 decoded a"
          from closed_in_reach [OF d5 dv this] have "a < length h3" by simp
          with a l34 show False by simp
        qed
        moreover from a l34 f3(2) a2 have "length h \<le> a" by simp
        ultimately show ?thesis by simp
      qed
      have same: "represents h5 t v"
        if res: "r = Resolved v" and wf: "wf_json t" and rep: "represents h5 t decoded" for v t
      proof -
        note cp = copied [OF res]
        from rep have "represents_in 0 (length h5) h5 t decoded"
          by (simp add: represents_def)
        with represents_closed(1) [of "length h2" "length h3" h5 decoded 0 "length h5" t] d5 dv
        have r5: "represents_in (length h2) (length h3) h5 t decoded" by simp
        have "\<forall>b. length h2 \<le> b \<and> b < length h3 \<longrightarrow> h4 ! b = h5 ! b"
          using nth_frame [OF f45] l34 by simp
        with represents_in_cong(1) [of "length h2" "length h3" h4 h5 t decoded] r5
        have r4: "represents_in (length h2) (length h3) h4 t decoded" by simp
        from l34 have "length h3 \<le> length h4" by simp
        with copy_tree(1) [of "stack_depth e" h4 decoded h5 v t "length h2" "length h3"]
          cp wf r4
        have "built_at (length h4) h5 t v" by simp
        then have "represents_in (length h4) (length h5) h5 t v"
          by (rule built_at_represents)
        then show ?thesis by (rule represents_frame) simp_all
      qed
      note content5 = content [OF _ _ f25]
      show ?thesis
        unfolding c using f5 g fields ps fresh same content5 by simp
    qed
  qed
qed

text \<open>
  An example: the server answers \<open>[{id: 3}]\<close>. The caller's two objects stay at the
  addresses 0 and 1, the converted arguments are the objects 2 and 3, the decoded body the
  objects 4 and 5, the response object is 6, and the promise is resolved with the copy, the
  objects 7 and 8.
\<close>

lemma call_env_users:
  "call env_users ''core_x'' (Ref 0) (Some site_preSets) caller_heap =
     (caller_heap @
        [\<lparr>is_array = False,
           props = [(''courseid'', Prim (Str ''7'')), (''options'', Ref 3),
                    (''wsfunction'', Prim (Str ''core_x'')), (''wstoken'', Prim (Str ''t0''))]\<rparr>,
         \<lparr>is_array = True, props = [(''0'', Prim (Str ''true''))]\<rparr>,
         \<lparr>is_array = True, props = [(''0'', Ref 5)]\<rparr>,
         \<lparr>is_array = False, props = [(''id'', Prim (Num 3))]\<rparr>,
         \<lparr>is_array = False, props = [(''data'', Ref 4)]\<rparr>,
         \<lparr>is_array = True, props = [(''0'', Ref 8)]\<rparr>,
         \<lparr>is_array = False, props = [(''id'', Prim (Num 3))]\<rparr>],
      \<lparr>ajax = Some (''https://school.example/webservice/rest/server.php?moodlewsrestformat=json'',
                     Ref 2),
        body = Some (Ref 4), outcome = Returns (Resolved (Ref 7))\<rparr>)"
proof -
  have sd: "stack_depth env_users = 100"
    by (simp add: env_users_def env_down_def)
  show ?thesis
    by (simp add: call_def sd convert_caller_heap checked_preSets_def site_preSets_def)
      (simp add: env_users_def env_down_def caller_heap_def set_prop_def call_success_def
        get_prop_def at_index_def truthy_val_def keys_def isArray_def digits.simps
        eval_nat_numeral Let_def)
qed

theorem call_leaves_data_and_copies_payload_witness:
  "take 2 (fst (call env_users ''core_x'' (Ref 0) (Some site_preSets) caller_heap)) = caller_heap
   \<and> outcome (snd (call env_users ''core_x'' (Ref 0) (Some site_preSets) caller_heap))
       = Returns (Resolved (Ref 7))
   \<and> body (snd (call env_users ''core_x'' (Ref 0) (Some site_preSets) caller_heap))
       = Some (Ref 4)
   \<and> get_prop (fst (call env_users ''core_x'' (Ref 0) (Some site_preSets) caller_heap))
         (Ref 2) ''wsfunction'' = Prim (Str ''core_x'')
   \<and> represents caller_heap
         (JNode False [(''courseid'', JPrim (Num 7)),
                       (''options'', JNode True [(''0'', JPrim (Bool True))])])
         (Ref 0)
   \<and> represents (fst (call env_users ''core_x'' (Ref 0) (Some site_preSets) caller_heap))
         (JNode False [(''courseid'', JPrim (Str ''7'')),
                       (''options'', JNode True [(''0'', JPrim (Str ''true''))]),
                       (''wsfunction'', JPrim (Str ''core_x'')),
                       (''wstoken'', JPrim (Str ''t0''))])
         (Ref 2)
   \<and> represents (fst (call env_users ''core_x'' (Ref 0) (Some site_preSets) caller_heap))
         (JNode True [(''0'', JNode False [(''id'', JPrim (Num 3))])]) (Ref 4)
   \<and> represents (fst (call env_users ''core_x'' (Ref 0) (Some site_preSets) caller_heap))
         (JNode True [(''0'', JNode False [(''id'', JPrim (Num 3))])]) (Ref 7)
   \<and> reach (fst (call env_users ''core_x'' (Ref 0) (Some site_preSets) caller_heap)) (Ref 7) 8
   \<and> \<not> reach (fst (call env_users ''core_x'' (Ref 0) (Some site_preSets) caller_heap)) (Ref 4) 8"
proof -
  let ?c = "call env_users ''core_x'' (Ref 0) (Some site_preSets) caller_heap"
  let ?args = "[(''courseid'', JPrim (Num 7)),
                (''options'', JNode True [(''0'', JPrim (Bool True))])]"
  let ?users = "JNode True [(''0'', JNode False [(''id'', JPrim (Num 3))])]"
  have l: "length caller_heap = 2"
    by (simp add: caller_heap_def)
  have o: "outcome (snd ?c) = Returns (Resolved (Ref 7))"
    and b: "body (snd ?c) = Some (Ref 4)"
    and a: "ajax (snd ?c) =
      Some (''https://school.example/webservice/rest/server.php?moodlewsrestformat=json'', Ref 2)"
    by (simp_all add: call_env_users)
  have "reach (fst ?c) (Ref 7) 7"
    by (rule reach.root) simp
  moreover have "7 < length (fst ?c)"
    by (simp add: call_env_users l)
  moreover have "(''0'', Ref 8) \<in> set (props (fst ?c ! 7))"
    by (simp add: call_env_users nth_append l)
  ultimately have r: "reach (fst ?c) (Ref 7) 8"
    by (rule reach.step)
  have wa: "wf_json (JNode False ?args)" and wu: "wf_json ?users"
    by simp_all
  have ra: "represents caller_heap (JNode False ?args) (Ref 0)"
    by (simp add: represents_def caller_heap_def)
  have hc: "fst ?c = caller_heap @
        [\<lparr>is_array = False,
           props = [(''courseid'', Prim (Str ''7'')), (''options'', Ref 3),
                    (''wsfunction'', Prim (Str ''core_x'')), (''wstoken'', Prim (Str ''t0''))]\<rparr>,
         \<lparr>is_array = True, props = [(''0'', Prim (Str ''true''))]\<rparr>,
         \<lparr>is_array = True, props = [(''0'', Ref 5)]\<rparr>,
         \<lparr>is_array = False, props = [(''id'', Prim (Num 3))]\<rparr>,
         \<lparr>is_array = False, props = [(''data'', Ref 4)]\<rparr>,
         \<lparr>is_array = True, props = [(''0'', Ref 8)]\<rparr>,
         \<lparr>is_array = False, props = [(''id'', Prim (Num 3))]\<rparr>]"
    by (simp add: call_env_users)
  have ru: "represents (fst ?c) ?users (Ref 4)"
    unfolding hc by (simp add: represents_def caller_heap_def)
  have w: "ps_wstoken site_preSets = Some ''t0''"
    by (simp add: site_preSets_def)
  note th = call_leaves_data_and_copies_payload
              [of env_users "''core_x''" "Ref 0" "Some site_preSets" caller_heap,
               unfolded case_prod_beta Let_def]
  from th have t: "take (length caller_heap) (fst ?c) = caller_heap"
    by (rule conjunct1)
  from th [THEN conjunct2, THEN conjunct1, rule_format, OF a]
  have f: "get_prop (fst ?c) (Ref 2) ''wsfunction'' = Prim (Str ''core_x'')"
    and "\<exists>ps wstoken. Some site_preSets = Some ps \<and> ps_wstoken ps = Some wstoken
      \<and> (\<forall>arr fs. wf_json (JNode arr fs) \<and> represents caller_heap (JNode arr fs) (Ref 0) \<longrightarrow>
            represents (fst ?c)
              (JNode arr (put ''wstoken'' (JPrim (Str wstoken))
                 (put ''wsfunction'' (JPrim (Str ''core_x'')) (stringified_fields fs))))
              (Ref 2))"
    by auto
  with w have "\<forall>arr fs. wf_json (JNode arr fs) \<and> represents caller_heap (JNode arr fs) (Ref 0) \<longrightarrow>
      represents (fst ?c)
        (JNode arr (put ''wstoken'' (JPrim (Str ''t0''))
           (put ''wsfunction'' (JPrim (Str ''core_x'')) (stringified_fields fs))))
        (Ref 2)"
    by auto
  with wa ra have "represents (fst ?c)
      (JNode False (put ''wstoken'' (JPrim (Str ''t0''))
         (put ''wsfunction'' (JPrim (Str ''core_x'')) (stringified_fields ?args))))
      (Ref 2)"
    by blast
  then have c2: "represents (fst ?c)
      (JNode False [(''courseid'', JPrim (Str ''7'')),
                    (''options'', JNode True [(''0'', JPrim (Str ''true''))]),
                    (''wsfunction'', JPrim (Str ''core_x'')),
                    (''wstoken'', JPrim (Str ''t0''))])
      (Ref 2)"
    by (simp add: digits.simps)
  from th [THEN conjunct2, THEN conjunct2, THEN conjunct1] o b wu ru
  have c7: "represents (fst ?c) ?users (Ref 7)"
    by blast
  from th [THEN conjunct2, THEN conjunct2, THEN conjunct2] o b r
  have n: "\<not> reach (fst ?c) (Ref 4) 8"
    by blast
  from t f n o b r ra c2 ru c7 show ?thesis
    by (simp add: l)
qed

end
